theory Spec2Isabelle
  imports Main "HOL-Library.Sublist"
begin

section \<open>Python strings\<close>

text \<open>
  A Python \<open>str\<close> is modelled as \<open>string\<close>; a character stands for the code point of the
  same number, so the model covers the code points below 256.
  \<open>isspace\<close> is the whitespace test that \<open>str.strip()\<close> uses, on that range:
  TAB, LF, VT, FF, CR, the separators 0x1C..0x1F, SPACE, NEL (0x85) and NBSP (0xA0).
\<close>

definition isspace :: "char \<Rightarrow> bool" where
  "isspace c =
     (let n = (of_char c :: nat)
      in (9 \<le> n \<and> n \<le> 13) \<or> (28 \<le> n \<and> n \<le> 32) \<or> n = 133 \<or> n = 160)"

definition lstrip :: "string \<Rightarrow> string" where
  "lstrip s = dropWhile isspace s"

definition rstrip :: "string \<Rightarrow> string" where
  "rstrip s = rev (dropWhile isspace (rev s))"

definition strip :: "string \<Rightarrow> string" where
  "strip s = rstrip (lstrip s)"

definition endswith :: "string \<Rightarrow> string \<Rightarrow> bool" where
  "endswith s suf = (length suf \<le> length s \<and> drop (length s - length suf) s = suf)"

text \<open>\<open>sep.join(xs)\<close>.\<close>

fun join :: "string \<Rightarrow> string list \<Rightarrow> string" where
  "join sep [] = []"
| "join sep [x] = x"
| "join sep (x # y # ys) = x @ sep @ join sep (y # ys)"

abbreviation newline :: char where
  "newline \<equiv> CHR 0x0A"

section \<open>The regular expressions of the program\<close>

text \<open>
  The two patterns of \<open>main.py\<close> are sequences of the items below. \<open>rmatch\<close> is the
  backtracking matcher of \<open>re\<close> anchored at the start of its argument: it tries the
  alternatives of every quantifier in the order of their priority and returns the first
  complete match, as the text each item consumed (one segment per item) and the rest of
  the input.
  \<^item> \<open>Lit l\<close>: the literal text \<open>l\<close>;
  \<^item> \<open>One P\<close>: one character of the class \<open>P\<close>;
  \<^item> \<open>Lazy P\<close>: \<open>P*?\<close>, as few characters of the class as possible;
  \<^item> \<open>Greedy P\<close>: \<open>P*\<close>, as many characters of the class as possible;
  \<^item> \<open>Ahead l\<close>: the lookahead \<open>(?=l|\Z)\<close>: the input continues with \<open>l\<close> or is at its end.
\<close>

datatype rx =
    Lit string
  | One "char \<Rightarrow> bool"
  | Lazy "char \<Rightarrow> bool"
  | Greedy "char \<Rightarrow> bool"
  | Ahead string

fun rmatch :: "rx list \<Rightarrow> string \<Rightarrow> (string list \<times> string) option" where
  "rmatch [] s = Some ([], s)"
| "rmatch (Lit l # r) s =
     (if prefix l s
      then (case rmatch r (drop (length l) s) of
              None \<Rightarrow> None
            | Some (gs, rest) \<Rightarrow> Some (l # gs, rest))
      else None)"
| "rmatch (One P # r) s =
     (case s of
        [] \<Rightarrow> None
      | c # cs \<Rightarrow>
          if P c
          then (case rmatch r cs of
                  None \<Rightarrow> None
                | Some (gs, rest) \<Rightarrow> Some ([c] # gs, rest))
          else None)"
| "rmatch (Lazy P # r) s =
     (case rmatch r s of
        Some (gs, rest) \<Rightarrow> Some ([] # gs, rest)
      | None \<Rightarrow>
          (case s of
             [] \<Rightarrow> None
           | c # cs \<Rightarrow>
               if P c
               then (case rmatch (Lazy P # r) cs of
                       Some (g # gs, rest) \<Rightarrow> Some ((c # g) # gs, rest)
                     | _ \<Rightarrow> None)
               else None))"
| "rmatch (Greedy P # r) s =
     (case (case s of
              [] \<Rightarrow> None
            | c # cs \<Rightarrow>
                if P c
                then (case rmatch (Greedy P # r) cs of
                        Some (g # gs, rest) \<Rightarrow> Some ((c # g) # gs, rest)
                      | _ \<Rightarrow> None)
                else None) of
        Some m \<Rightarrow> Some m
      | None \<Rightarrow>
          (case rmatch r s of
             None \<Rightarrow> None
           | Some (gs, rest) \<Rightarrow> Some ([] # gs, rest)))"
| "rmatch (Ahead l # r) s =
     (if prefix l s \<or> s = []
      then (case rmatch r s of
              None \<Rightarrow> None
            | Some (gs, rest) \<Rightarrow> Some ([] # gs, rest))
      else None)"

text \<open>The character classes: \<open>.\<close> under \<open>re.DOTALL\<close>, \<open>.\<close> without it, and the letter d.\<close>

definition any_char :: "char \<Rightarrow> bool" where
  "any_char c = True"

definition dot :: "char \<Rightarrow> bool" where
  "dot c = (c \<noteq> newline)"

definition letter_d :: "char \<Rightarrow> bool" where
  "letter_d c = (c = CHR ''d'')"

text \<open>
  \<open>pattern.findall(s)\<close> for a pattern whose matches are never empty: the matches from left
  to right, each search starting where the previous match ended. (The branch for an empty
  match ends the scan; \<open>diff_pattern\<close> below never takes it.)
\<close>

fun findall :: "rx list \<Rightarrow> string \<Rightarrow> string list list" where
  "findall p s =
     (case rmatch p s of
        None \<Rightarrow> (case s of [] \<Rightarrow> [] | c # cs \<Rightarrow> findall p cs)
      | Some (gs, rest) \<Rightarrow>
          if length rest < length s then gs # findall p rest else [gs])"

declare findall.simps [simp del]

text \<open>\<open>re.search(p, s)\<close>: the first position, from the left, where the pattern matches.\<close>

fun search :: "rx list \<Rightarrow> string \<Rightarrow> string list option" where
  "search p s =
     (case rmatch p s of
        Some (gs, rest) \<Rightarrow> Some gs
      | None \<Rightarrow> (case s of [] \<Rightarrow> None | c # cs \<Rightarrow> search p cs))"

declare search.simps [simp del]

section \<open>The state of the pipeline\<close>

text \<open>
  \<open>FileResult\<close> and \<open>PRState\<close> are the two \<open>TypedDict\<close>s. The fields \<open>diff\<close> and
  \<open>business_summary\<close> occur in both; those of \<open>PRState\<close> are written \<open>pr_diff\<close> and
  \<open>pr_business_summary\<close>. A key of \<open>PRState\<close> that no stage has written yet is the empty
  value.
\<close>

record FileResult =
  filename :: string
  diff :: string
  is_apex :: bool
  explanation :: string
  review_comments :: string
  business_summary :: string

record PRState =
  pr_url :: string
  pr_diff :: string
  files :: "FileResult list"
  dev_summary :: string
  pr_business_summary :: string

definition is_apex_file :: "string \<Rightarrow> bool" where
  "is_apex_file name = (endswith name ''.cls'' \<or> endswith name ''.trigger'')"

section \<open>The Diff Splitter\<close>

text \<open>
  \<open>diff --git a/(.*?) b/.*?\n(.*?)(?=\ndiff --git a/|\Z)\<close> with \<open>re.DOTALL\<close>. Group 1 is
  the segment of item 1, group 2 the segment of item 5.
\<close>

definition diff_pattern :: "rx list" where
  "diff_pattern =
     [Lit ''diff --git a/'', Lazy any_char, Lit '' b/'', Lazy any_char, Lit [newline],
      Lazy any_char, Ahead (newline # ''diff --git a/'')]"

definition diff_groups :: "string list \<Rightarrow> string \<times> string" where
  "diff_groups gs = (gs ! 1, gs ! 5)"

definition new_file :: "string \<times> string \<Rightarrow> FileResult" where
  "new_file m =
     (case m of (name, file_diff) \<Rightarrow>
        \<lparr>filename = strip name, diff = strip file_diff, is_apex = is_apex_file name,
         explanation = [], review_comments = [], business_summary = []\<rparr>)"

definition split_by_file :: "PRState \<Rightarrow> PRState" where
  "split_by_file state =
     (let matches = map diff_groups (findall diff_pattern (pr_diff state))
      in state\<lparr>files := map new_file matches\<rparr>)"


text \<open>
  The shape of a well-formed diff text, used to state what the splitter computes. A section
  is a header line \<open>diff --git a/<pa> b/<pb>\<close>, a newline and a body; \<open>section_text\<close>
  writes it out. In a well-formed section the two paths are on one line and no line of the
  body starts with \<open>diff --git a/\<close>. \<open>a_side pa\<close> is \<open>pa\<close> up to its first \<open>'' b/''\<close>, the
  whole of \<open>pa\<close> when there is none.
\<close>

definition header_start :: string where
  "header_start = ''diff --git a/''"

fun upto_sep :: "string \<Rightarrow> string \<Rightarrow> string" where
  "upto_sep sep [] = []"
| "upto_sep sep (c # cs) = (if prefix sep (c # cs) then [] else c # upto_sep sep cs)"

definition a_side :: "string \<Rightarrow> string" where
  "a_side pa = upto_sep '' b/'' pa"

definition section_text :: "string \<times> string \<times> string \<Rightarrow> string" where
  "section_text b =
     (case b of (pa, pb, body) \<Rightarrow> header_start @ pa @ '' b/'' @ pb @ [newline] @ body)"

definition wf_section :: "string \<times> string \<times> string \<Rightarrow> bool" where
  "wf_section b =
     (case b of (pa, pb, body) \<Rightarrow>
        newline \<notin> set pa \<and> newline \<notin> set pb
        \<and> \<not> sublist (newline # header_start) (newline # body))"

definition section_groups :: "string \<times> string \<times> string \<Rightarrow> string \<times> string" where
  "section_groups b = (case b of (pa, pb, body) \<Rightarrow> (a_side pa, body))"

definition section_body :: "string \<times> string \<times> string \<Rightarrow> string" where
  "section_body b = (case b of (pa, pb, body) \<Rightarrow> body)"

definition section_a_path :: "string \<times> string \<times> string \<Rightarrow> string" where
  "section_a_path b = (case b of (pa, pb, body) \<Rightarrow> pa)"

text \<open>
  The number of file-header lines of a text, in the words of the specification: the lines
  (the pieces between newlines) of the form \<open>diff --git a/<path> b/<path>\<close>.
\<close>

fun split_lines :: "string \<Rightarrow> string list" where
  "split_lines [] = [[]]"
| "split_lines (c # cs) =
     (if c = newline then [] # split_lines cs
      else (case split_lines cs of [] \<Rightarrow> [[c]] | l # ls \<Rightarrow> (c # l) # ls))"

definition is_header_line :: "string \<Rightarrow> bool" where
  "is_header_line l =
     (prefix header_start l \<and> sublist '' b/'' (drop (length header_start) l))"

definition spec_header_count :: "string \<Rightarrow> nat" where
  "spec_header_count text = length (filter is_header_line (split_lines text))"

section \<open>The outside world\<close>

text \<open>
  The program calls three services: \<open>requests.get(url).text\<close>,
  \<open>openai.chat.completions.create(...).choices[0].message.content\<close> and
  \<open>requests.post(...)\<close>. Each is a function of the state \<open>'w\<close> of the outside world that
  either raises (\<open>Inl\<close> with the text \<open>str(e)\<close> of the exception) or returns. The
  completion client is given the credential it finds in the module attribute
  \<open>openai.api_key\<close> at the time of the call, \<open>None\<close> when there is none. The program records
  nothing about its calls; the model keeps them in \<open>gets\<close>, \<open>chats\<close> and \<open>posts\<close>, in the
  order they are issued.
\<close>

type_synonym exn = string

datatype json = Null | Str string | Num int | Arr "json list" | Obj "(string \<times> json) list"

record chat_request =
  model :: string
  content :: string
  max_tokens :: nat

record post_request =
  url :: string
  headers :: "(string \<times> string) list"
  json_payload :: "(string \<times> json) list"

text \<open>\<open>json_body\<close> is what \<open>response.json()\<close> does: raise, or return the decoded body.\<close>

record response =
  status_code :: int
  json_body :: "exn + json"

record 'w api =
  requests_get :: "string \<Rightarrow> 'w \<Rightarrow> (exn + string) \<times> 'w"
  completions_create :: "string option \<Rightarrow> chat_request \<Rightarrow> 'w \<Rightarrow> (exn + string) \<times> 'w"
  requests_post :: "post_request \<Rightarrow> 'w \<Rightarrow> (exn + response) \<times> 'w"

record 'w world =
  outside :: 'w
  openai_api_key :: "string option"
  gets :: "string list"
  chats :: "(chat_request \<times> (exn + string)) list"
  posts :: "post_request list"

text \<open>Sequencing of calls that may raise: an exception ends the computation.\<close>

definition and_then ::
  "('s \<Rightarrow> (exn + 'a) \<times> 's) \<Rightarrow> ('a \<Rightarrow> 's \<Rightarrow> (exn + 'b) \<times> 's) \<Rightarrow> 's \<Rightarrow> (exn + 'b) \<times> 's" where
  "and_then m f s = (case m s of (Inl e, s') \<Rightarrow> (Inl e, s') | (Inr x, s') \<Rightarrow> f x s')"

definition returns :: "'a \<Rightarrow> 's \<Rightarrow> (exn + 'a) \<times> 's" where
  "returns x s = (Inr x, s)"

text \<open>
  \<open>openai.chat.completions.create(model="gpt-4", messages=[{"role": "user", "content":
  prompt}], max_tokens=budget).choices[0].message.content.strip()\<close>
\<close>

definition chat :: "'w api \<Rightarrow> string \<Rightarrow> nat \<Rightarrow> 'w world \<Rightarrow> (exn + string) \<times> 'w world" where
  "chat a prompt budget w =
     (let req = \<lparr>model = ''gpt-4'', content = prompt, max_tokens = budget\<rparr>;
          r = completions_create a (openai_api_key w) req (outside w);
          w' = w\<lparr>outside := snd r, chats := chats w @ [(req, fst r)]\<rparr>
      in (case fst r of Inl e \<Rightarrow> (Inl e, w') | Inr text \<Rightarrow> (Inr (strip text), w')))"

section \<open>The stages of the pipeline\<close>

definition fetch_pr_diff :: "'w api \<Rightarrow> PRState \<Rightarrow> 'w world \<Rightarrow> (exn + PRState) \<times> 'w world" where
  "fetch_pr_diff a state w =
     (let diff_url = pr_url state @ ''.diff'';
          r = requests_get a diff_url (outside w);
          w' = w\<lparr>outside := snd r, gets := gets w @ [diff_url]\<rparr>
      in (case fst r of Inl e \<Rightarrow> (Inl e, w') | Inr text \<Rightarrow> (Inr (state\<lparr>pr_diff := text\<rparr>), w')))"

definition explain_prompt :: "string \<Rightarrow> string" where
  "explain_prompt d = ''Explain the changes in this file:'' @ [newline, newline] @ d"

definition review_prompt :: "string \<Rightarrow> string" where
  "review_prompt d = ''Review the following Apex code for best practices:'' @ [newline, newline] @ d"

definition business_prompt :: "string \<Rightarrow> string" where
  "business_prompt d = ''Summarize this file change for business users:'' @ [newline, newline] @ d"

text \<open>The body of the loop of \<open>process_files\<close>, for one file.\<close>

definition process_file :: "'w api \<Rightarrow> FileResult \<Rightarrow> 'w world \<Rightarrow> (exn + FileResult) \<times> 'w world" where
  "process_file a file =
     and_then (chat a (explain_prompt (diff file)) 500) (\<lambda>explanation'.
     and_then (if is_apex file then chat a (review_prompt (diff file)) 500 else returns [])
       (\<lambda>review_comments'.
     and_then (chat a (business_prompt (diff file)) 300) (\<lambda>business_summary'.
     returns (file\<lparr>explanation := explanation', review_comments := review_comments',
                    business_summary := business_summary'\<rparr>))))"

fun process_loop ::
  "'w api \<Rightarrow> FileResult list \<Rightarrow> FileResult list \<Rightarrow> 'w world \<Rightarrow> (exn + FileResult list) \<times> 'w world" where
  "process_loop a updated_files [] = returns updated_files"
| "process_loop a updated_files (file # rest) =
     and_then (process_file a file) (\<lambda>file'. process_loop a (updated_files @ [file']) rest)"

definition process_files :: "'w api \<Rightarrow> PRState \<Rightarrow> 'w world \<Rightarrow> (exn + PRState) \<times> 'w world" where
  "process_files a state =
     and_then (process_loop a [] (files state)) (\<lambda>updated_files.
     returns (state\<lparr>files := updated_files\<rparr>))"

definition explanation_block :: "FileResult \<Rightarrow> string" where
  "explanation_block f = ''Changes in '' @ filename f @ '':'' @ [newline] @ explanation f"

definition aggregate_summaries :: "'w api \<Rightarrow> PRState \<Rightarrow> 'w world \<Rightarrow> (exn + PRState) \<times> 'w world" where
  "aggregate_summaries a state =
     (let explanations = map explanation_block (files state);
          business_summaries = map business_summary (files state)
      in and_then (chat a (join [newline, newline] explanations) 400) (\<lambda>dev_summary'.
         and_then (chat a (join [newline, newline] business_summaries) 300) (\<lambda>business_summary'.
         returns (state\<lparr>dev_summary := dev_summary',
                         pr_business_summary := business_summary'\<rparr>))))"

text \<open>
  \<open>graph.invoke({"pr_url": url})\<close>: the four nodes in the order of the edges, from the state
  that holds the URL only.
\<close>

definition invoke :: "'w api \<Rightarrow> string \<Rightarrow> 'w world \<Rightarrow> (exn + PRState) \<times> 'w world" where
  "invoke a u =
     and_then (fetch_pr_diff a
        \<lparr>pr_url = u, pr_diff = [], files = [], dev_summary = [], pr_business_summary = []\<rparr>)
       (\<lambda>s1.
     and_then (returns (split_by_file s1)) (\<lambda>s2.
     and_then (process_files a s2) (\<lambda>s3.
     aggregate_summaries a s3)))"

section \<open>The job store\<close>

text \<open>
  The values of \<open>job_store\<close> are dictionaries from field names to Python values: \<open>None\<close>,
  a string, or the final state of the pipeline.
\<close>

datatype pyval = PNone | PStr string | PState PRState

type_synonym job_record = "string \<rightharpoonup> pyval"

type_synonym job_store = "string \<rightharpoonup> job_record"

text \<open>\<open>job_store[job_id] = {"status": "processing", "result": None}\<close>, in \<open>analyze_pr\<close>.\<close>

definition analyze_pr :: "string \<Rightarrow> job_store \<Rightarrow> job_store" where
  "analyze_pr job_id store =
     store(job_id \<mapsto> [''status'' \<mapsto> PStr ''processing'', ''result'' \<mapsto> PNone])"

text \<open>
  \<open>run_job\<close>, given what \<open>graph.invoke\<close> did in the thread of the job: raised an
  \<open>Exception\<close> \<open>e\<close> (\<open>Inl (str e)\<close>) or returned the final state.
\<close>

definition run_job :: "string \<Rightarrow> exn + PRState \<Rightarrow> job_store \<Rightarrow> job_store" where
  "run_job job_id outcome store =
     (case outcome of
        Inr result \<Rightarrow> store(job_id \<mapsto> [''status'' \<mapsto> PStr ''done'', ''result'' \<mapsto> PState result])
      | Inl e \<Rightarrow> store(job_id \<mapsto> [''status'' \<mapsto> PStr ''error'', ''error'' \<mapsto> PStr e]))"

text \<open>\<open>check_status\<close>: the record, or \<open>{"error": "Invalid job ID"}\<close>.\<close>

definition check_status :: "string \<Rightarrow> job_store \<Rightarrow> job_record" where
  "check_status job_id store =
     (case store job_id of
        None \<Rightarrow> [''error'' \<mapsto> PStr ''Invalid job ID'']
      | Some job \<Rightarrow> if job = Map.empty then [''error'' \<mapsto> PStr ''Invalid job ID''] else job)"

text \<open>
  The server as a transition system. Its state is the job store and the identifiers of
  the threads that were started and have not ended yet. The events:
  \<^item> \<open>Submit job_id\<close>: a request to \<open>/analyze_pr\<close>, for which \<open>uuid4\<close> returned \<open>job_id\<close>; it
    stores the new record and starts the thread;
  \<^item> \<open>Submit_unstarted job_id\<close>: such a request in which \<open>Thread(...).start()\<close> raises: the
    record was stored on the line before, and no thread runs;
  \<^item> \<open>Finish job_id outcome\<close>: the thread of \<open>job_id\<close> comes to the end of \<open>run_job\<close>, its
    \<open>graph.invoke\<close> having returned or raised an \<open>Exception\<close>; possible only for a started
    thread;
  \<^item> \<open>Abort job_id\<close>: the thread of \<open>job_id\<close> is ended by an exception that is not an
    \<open>Exception\<close> (\<open>SystemExit\<close>, \<open>KeyboardInterrupt\<close>), which \<open>except Exception\<close> does not
    catch: \<open>run_job\<close> stores nothing; possible only for a started thread;
  \<^item> \<open>Poll job_id\<close>: a request to \<open>/status/{job_id}\<close>, which reads the store.
  A thread whose \<open>graph.invoke\<close> never returns has no event: it stays in \<open>threads\<close>.
\<close>

record server =
  job_store :: job_store
  threads :: "string list"

datatype event =
    Submit string
  | Submit_unstarted string
  | Finish string "exn + PRState"
  | Abort string
  | Poll string

definition start :: server where
  "start = \<lparr>job_store = Map.empty, threads = []\<rparr>"

fun step :: "event \<Rightarrow> server \<Rightarrow> server option" where
  "step (Submit job_id) s =
     Some (s\<lparr>job_store := analyze_pr job_id (job_store s), threads := threads s @ [job_id]\<rparr>)"
| "step (Submit_unstarted job_id) s =
     Some (s\<lparr>job_store := analyze_pr job_id (job_store s)\<rparr>)"
| "step (Finish job_id outcome) s =
     (if job_id \<in> set (threads s)
      then Some (s\<lparr>job_store := run_job job_id outcome (job_store s),
                   threads := remove1 job_id (threads s)\<rparr>)
      else None)"
| "step (Abort job_id) s =
     (if job_id \<in> set (threads s)
      then Some (s\<lparr>threads := remove1 job_id (threads s)\<rparr>)
      else None)"
| "step (Poll job_id) s = Some s"

text \<open>The states the server goes through on a sequence of events, from \<open>s\<close> on.\<close>

fun states :: "event list \<Rightarrow> server \<Rightarrow> server list" where
  "states [] s = [s]"
| "states (e # es) s = s # (case step e s of None \<Rightarrow> [] | Some s' \<Rightarrow> states es s')"

fun submitted :: "event list \<Rightarrow> string list" where
  "submitted [] = []"
| "submitted (Submit job_id # es) = job_id # submitted es"
| "submitted (Submit_unstarted job_id # es) = job_id # submitted es"
| "submitted (e # es) = submitted es"

definition job_field :: "job_store \<Rightarrow> string \<Rightarrow> string \<Rightarrow> pyval option" where
  "job_field store job_id k = (case store job_id of None \<Rightarrow> None | Some job \<Rightarrow> job k)"

definition status_of :: "string \<Rightarrow> server \<Rightarrow> pyval option" where
  "status_of job_id s = job_field (job_store s) job_id ''status''"

text \<open>A field of a record is present when the record binds it to a value other than \<open>None\<close>.\<close>

definition present :: "job_record \<Rightarrow> string \<Rightarrow> bool" where
  "present job k = (case job k of None \<Rightarrow> False | Some PNone \<Rightarrow> False | Some v \<Rightarrow> True)"

section \<open>The approval endpoint\<close>

text \<open>
  \<open>r"github.com/(.*?)/(.*?)/pull/(\\d+)"\<close>: in the raw string the regular expression
  reads \<open>\\d+\<close>, an escaped backslash followed by one or more letters d. Groups 1 and 2
  are the segments of items 3 and 5, group 3 is what items 7 to 9 consumed.
\<close>

definition approve_pattern :: "rx list" where
  "approve_pattern =
     [Lit ''github'', One dot, Lit ''com/'', Lazy dot, Lit ''/'', Lazy dot, Lit ''/pull/'',
      Lit [CHR 0x5C], One letter_d, Greedy letter_d]"

definition approve_groups :: "string list \<Rightarrow> string \<times> string \<times> string" where
  "approve_groups gs = (gs ! 3, gs ! 5, gs ! 7 @ gs ! 8 @ gs ! 9)"

text \<open>\<open>f"{token}"\<close> for the result of \<open>os.getenv\<close>: \<open>None\<close> is formatted as its name.\<close>

definition format_opt :: "string option \<Rightarrow> string" where
  "format_opt v = (case v of None \<Rightarrow> ''None'' | Some t \<Rightarrow> t)"

definition approve_request :: "string option \<Rightarrow> string \<times> string \<times> string \<Rightarrow> post_request" where
  "approve_request token g =
     (case g of (owner, repo, pr_number) \<Rightarrow>
        \<lparr>url = ''https://api.github.com/repos/'' @ owner @ ''/'' @ repo @ ''/pulls/''
                 @ pr_number @ ''/reviews'',
         headers = [(''Authorization'', ''token '' @ format_opt token),
                    (''Accept'', ''application/vnd.github+json'')],
         json_payload = [(''event'', Str ''APPROVE'')]\<rparr>)"

definition approve_pr ::
  "'w api \<Rightarrow> (string \<rightharpoonup> string) \<Rightarrow> string \<Rightarrow> 'w world \<Rightarrow> (exn + (string \<times> json) list) \<times> 'w world" where
  "approve_pr a getenv u w =
     (let token = getenv ''GITHUB_TOKEN''
      in case search approve_pattern u of
           None \<Rightarrow> (Inr [(''error'', Str ''Invalid GitHub PR URL'')], w)
         | Some gs \<Rightarrow>
             (let req = approve_request token (approve_groups gs);
                  r = requests_post a req (outside w);
                  w' = w\<lparr>outside := snd r, posts := posts w @ [req]\<rparr>
              in case fst r of
                   Inl e \<Rightarrow> (Inl e, w')
                 | Inr response \<Rightarrow>
                     if status_code response = 200 \<or> status_code response = 201
                     then (Inr [(''status'', Str ''approved'')], w')
                     else (case json_body response of
                             Inl e \<Rightarrow> (Inl e, w')
                           | Inr body \<Rightarrow> (Inr [(''error'', body)], w'))))"

text \<open>Line 14, run when the module is loaded: \<open>openai.api_key = os.getenv("OPENAI_API_KEY")\<close>.\<close>

definition load_module :: "(string \<rightharpoonup> string) \<Rightarrow> 'w world \<Rightarrow> 'w world" where
  "load_module getenv w = w\<lparr>openai_api_key := getenv ''OPENAI_API_KEY''\<rparr>"

section \<open>Statements about the calls of a stage\<close>

text \<open>
  The answers of the completion service for one file are three texts: to the explanation
  request, to the review request (not asked for, and not looked at, unless the file
  \<open>is_apex\<close>) and to the business-summary request. \<open>file_exchange\<close> is the sequence of
  requests and answers these make, each prompt written out as the instruction, a blank
  line and the \<open>diff\<close> of the file; \<open>apply_answers\<close> is the record they leave.
\<close>

definition gpt4 :: "string \<Rightarrow> nat \<Rightarrow> chat_request" where
  "gpt4 prompt budget = \<lparr>model = ''gpt-4'', content = prompt, max_tokens = budget\<rparr>"



section \<open>Statements about the job store\<close>

text \<open>The three records that the program writes into the store.\<close>

definition written_record :: "job_record \<Rightarrow> bool" where
  "written_record job =
     (job = [''status'' \<mapsto> PStr ''processing'', ''result'' \<mapsto> PNone]
      \<or> (\<exists>r. job = [''status'' \<mapsto> PStr ''done'', ''result'' \<mapsto> PState r])
      \<or> (\<exists>m. job = [''status'' \<mapsto> PStr ''error'', ''error'' \<mapsto> PStr m]))"

text \<open>
  The status of a job and its thread agree: an unknown job has no thread, a job in
  \<open>processing\<close> has at most one running thread, and a job that is \<open>done\<close> or in \<open>error\<close> has
  none.
  \<open>histories_from v\<close> are the sequences of distinct successive statuses that are possible
  from the status \<open>v\<close> on.
\<close>

definition consistent :: "string \<Rightarrow> server \<Rightarrow> bool" where
  "consistent j s =
     (case status_of j s of
        None \<Rightarrow> count_list (threads s) j = 0
      | Some v \<Rightarrow>
          if v = PStr ''processing'' then count_list (threads s) j \<le> 1
          else (v = PStr ''done'' \<or> v = PStr ''error'') \<and> count_list (threads s) j = 0)"

definition histories_from :: "pyval option \<Rightarrow> pyval option list set" where
  "histories_from v =
     (if v = None
      then {[None], [None, Some (PStr ''processing'')],
            [None, Some (PStr ''processing''), Some (PStr ''done'')],
            [None, Some (PStr ''processing''), Some (PStr ''error'')]}
      else if v = Some (PStr ''processing'')
      then {[Some (PStr ''processing'')],
            [Some (PStr ''processing''), Some (PStr ''done'')],
            [Some (PStr ''processing''), Some (PStr ''error'')]}
      else {[v]})"

section \<open>Example inputs\<close>

text \<open>
  An outside world in which every call is answered: the diff of a pull request with two
  files, the text \<open>'' ok ''\<close> for every completion, and status 200 for every POST.
\<close>

definition two_file_diff :: string where
  "two_file_diff =
     ''diff --git a/a.cls b/a.cls'' @ [newline] @ ''hunk1'' @ [newline]
     @ ''diff --git a/b.txt b/b.txt'' @ [newline] @ ''hunk2'' @ [newline]"

definition answering :: "unit api" where
  "answering =
     \<lparr>requests_get = (\<lambda>u w. (Inr two_file_diff, w)),
      completions_create = (\<lambda>key req w. (Inr '' ok '', w)),
      requests_post = (\<lambda>req w. (Inr \<lparr>status_code = 200, json_body = Inr Null\<rparr>, w))\<rparr>"

definition quiet :: "unit world" where
  "quiet = \<lparr>outside = (), openai_api_key = Some ''sk-example'', gets = [], chats = [],
            posts = []\<rparr>"

definition two_files :: PRState where
  "two_files =
     \<lparr>pr_url = ''u'', pr_diff = two_file_diff,
      files =
        [\<lparr>filename = ''a.cls'', diff = ''hunk1'', is_apex = True,
          explanation = ''e1'', review_comments = [], business_summary = ''b1''\<rparr>,
         \<lparr>filename = ''b.txt'', diff = ''hunk2'', is_apex = False,
          explanation = ''e2'', review_comments = [], business_summary = ''b2''\<rparr>],
      dev_summary = [], pr_business_summary = []\<rparr>"

text \<open>An outside world in which every call raises.\<close>

definition offline :: "unit api" where
  "offline =
     \<lparr>requests_get = (\<lambda>u w. (Inl ''no route to host'', w)),
      completions_create = (\<lambda>key req w. (Inl ''no route to host'', w)),
      requests_post = (\<lambda>req w. (Inl ''no route to host'', w))\<rparr>"

text \<open>
  Two more outside worlds: a forge that answers every POST with status 404 and a JSON
  body, and a gateway that answers with status 502 and a body that is not JSON, so that
  \<open>response.json()\<close> raises.
\<close>

definition not_found :: "unit api" where
  "not_found =
     \<lparr>requests_get = (\<lambda>u w. (Inr [], w)),
      completions_create = (\<lambda>key req w. (Inr [], w)),
      requests_post =
        (\<lambda>req w. (Inr \<lparr>status_code = 404,
                           json_body = Inr (Obj [(''message'', Str ''Not Found'')])\<rparr>, w))\<rparr>"

definition bad_gateway :: "unit api" where
  "bad_gateway =
     \<lparr>requests_get = (\<lambda>u w. (Inr [], w)),
      completions_create = (\<lambda>key req w. (Inr [], w)),
      requests_post =
        (\<lambda>req w. (Inr \<lparr>status_code = 502,
                           json_body = Inl ''Expecting value: line 1 column 1 (char 0)''\<rparr>, w))\<rparr>"

text \<open>
  An outside world whose completion client refuses an absent credential, as the client
  library does at the first call that needs it, and answers \<open>'' ok ''\<close> otherwise.
\<close>

definition keyed :: "unit api" where
  "keyed =
     \<lparr>requests_get = (\<lambda>u w. (Inr two_file_diff, w)),
      completions_create =
        (\<lambda>key req w.
           case key of
             None \<Rightarrow> (Inl ''The api_key client option must be set'', w)
           | Some k \<Rightarrow> (Inr '' ok '', w)),
      requests_post = (\<lambda>req w. (Inr \<lparr>status_code = 200, json_body = Inr Null\<rparr>, w))\<rparr>"

text \<open>A URL that the pattern of \<open>approve_pr\<close> matches: its number is a backslash and a d.\<close>

definition backslash_url :: string where
  "backslash_url = ''https://github.com/octocat/hello/pull/'' @ [CHR 0x5C] @ ''d''"

section \<open>Properties of the matcher\<close>

lemma rmatch_Lit_append:
  "rmatch (Lit l # r) (l @ s) =
     (case rmatch r s of None \<Rightarrow> None | Some (gs, rest) \<Rightarrow> Some (l # gs, rest))"
  by simp

lemma rmatch_Lazy_shortest:
  assumes "\<forall>c \<in> set u. P c"
    and "\<forall>k < length u. rmatch r (drop k (u @ v)) = None"
    and "rmatch r v = Some (gs, rest)"
  shows "rmatch (Lazy P # r) (u @ v) = Some (u # gs, rest)"
  using assms
proof (induction u)
  case Nil
  then show ?case by simp
next
  case (Cons c u)
  have none: "rmatch r (c # u @ v) = None"
    using Cons.prems(2) by (metis append_Cons drop0 length_greater_0_conv list.distinct(1))
  have "\<forall>k < length u. rmatch r (drop k (u @ v)) = None"
  proof (intro allI impI)
    fix k assume "k < length u"
    then have "Suc k < length (c # u)" by simp
    then have "rmatch r (drop (Suc k) ((c # u) @ v)) = None"
      using Cons.prems(2) by blast
    then show "rmatch r (drop k (u @ v)) = None" by simp
  qed
  then have ih: "rmatch (Lazy P # r) (u @ v) = Some (u # gs, rest)"
    using Cons.IH Cons.prems by simp
  show ?case using none ih Cons.prems(1) by simp
qed

lemma unique_head_no_overlap:
  assumes "c \<notin> set l'" and "d \<noteq> []" and "prefix (c # l') (d @ (c # l') @ t)"
  shows "prefix (c # l') d"
proof -
  from assms(3) have "prefix (c # l') d \<or> (\<exists>us. c # l' = d @ us \<and> prefix us ((c # l') @ t))"
    by (simp only: prefix_append)
  then consider "prefix (c # l') d"
    | us where "c # l' = d @ us" "prefix us ((c # l') @ t)"
    by blast
  then show ?thesis
  proof cases
    case 1 then show ?thesis .
  next
    case 2
    show ?thesis
    proof (cases us)
      case Nil
      with 2 show ?thesis by simp
    next
      case (Cons u us')
      with 2(2) have "u = c" by simp
      obtain d0 d' where d: "d = d0 # d'" using assms(2) by (cases d) auto
      with 2(1) Cons \<open>u = c\<close> have "l' = d' @ c # us'" by simp
      then have "c \<in> set l'" by simp
      with assms(1) show ?thesis by simp
    qed
  qed
qed

lemma upto_sep_prefix: "prefix (upto_sep sep s) s"
  by (induction s) auto

lemma upto_sep_no_sep: "\<not> sublist sep s \<Longrightarrow> upto_sep sep s = s"
  by (induction s) (auto simp: sublist_Cons_right)

lemma upto_sep_split:
  assumes "c \<notin> set l'"
  shows "\<exists>m. pa @ (c # l') @ x = upto_sep (c # l') pa @ (c # l') @ m @ x
           \<and> set m \<subseteq> set pa \<union> set (c # l')
           \<and> (\<forall>k < length (upto_sep (c # l') pa).
                  \<not> prefix (c # l') (drop k (pa @ (c # l') @ x)))"
proof (induction pa)
  case Nil
  show ?case by (rule exI [of _ "[]"]) simp
next
  case (Cons a as)
  show ?case
  proof (cases "prefix (c # l') (a # as)")
    case True
    then obtain as' where as': "a # as = (c # l') @ as'" by (auto simp: prefix_def)
    have "set (as' @ (c # l')) \<subseteq> set (a # as) \<union> set (c # l')"
      using as' by (metis Un_upper2 set_append sup_commute)
    with True as' show ?thesis
      by (intro exI [of _ "as' @ (c # l')"]) simp
  next
    case False
    have up: "upto_sep (c # l') (a # as) = a # upto_sep (c # l') as"
      using False by (simp del: Cons_prefix_Cons)
    have nohead: "\<not> prefix (c # l') ((a # as) @ (c # l') @ x)"
      using unique_head_no_overlap [OF assms, of "a # as" x] False by blast
    from Cons.IH obtain m where m:
      "as @ (c # l') @ x = upto_sep (c # l') as @ (c # l') @ m @ x"
      "set m \<subseteq> set as \<union> set (c # l')"
      "\<forall>k < length (upto_sep (c # l') as). \<not> prefix (c # l') (drop k (as @ (c # l') @ x))"
      by blast
    have "\<forall>k < length (upto_sep (c # l') (a # as)).
            \<not> prefix (c # l') (drop k ((a # as) @ (c # l') @ x))"
    proof (intro allI impI)
      fix k assume k: "k < length (upto_sep (c # l') (a # as))"
      show "\<not> prefix (c # l') (drop k ((a # as) @ (c # l') @ x))"
      proof (cases k)
        case 0
        then show ?thesis using nohead by simp
      next
        case (Suc j)
        with k up have "j < length (upto_sep (c # l') as)" by simp
        with m(3) Suc show ?thesis by simp
      qed
    qed
    moreover have "(a # as) @ (c # l') @ x = upto_sep (c # l') (a # as) @ (c # l') @ m @ x"
      using up m(1) by simp
    moreover have "set m \<subseteq> set (a # as) \<union> set (c # l')"
      using m(2) by auto
    ultimately show ?thesis by blast
  qed
qed

lemma tail_match:
  assumes "t = [] \<or> prefix l t"
    and "\<forall>k < length body. \<not> prefix l (drop k (body @ t))"
  shows "rmatch [Lazy any_char, Ahead l] (body @ t) = Some ([body, []], t)"
proof (rule rmatch_Lazy_shortest)
  show "\<forall>c \<in> set body. any_char c" by (simp add: any_char_def)
  show "rmatch [Ahead l] t = Some ([[]], t)" using assms(1) by auto
  show "\<forall>k < length body. rmatch [Ahead l] (drop k (body @ t)) = None"
  proof (intro allI impI)
    fix k assume k: "k < length body"
    then have "drop k (body @ t) \<noteq> []" by simp
    with assms(2) k show "rmatch [Ahead l] (drop k (body @ t)) = None" by simp
  qed
qed

lemma line_match:
  assumes "newline \<notin> set w" and "rmatch r v = Some (gs, rest)"
  shows "rmatch (Lazy any_char # Lit [newline] # r) (w @ newline # v)
           = Some (w # [newline] # gs, rest)"
proof (rule rmatch_Lazy_shortest)
  show "\<forall>c \<in> set w. any_char c" by (simp add: any_char_def)
  show "rmatch (Lit [newline] # r) (newline # v) = Some ([newline] # gs, rest)"
    using assms(2) by simp
  show "\<forall>k < length w. rmatch (Lit [newline] # r) (drop k (w @ newline # v)) = None"
  proof (intro allI impI)
    fix k assume k: "k < length w"
    then obtain y ys where y: "drop k w = y # ys" by (cases "drop k w") auto
    then have "y \<in> set w" by (metis in_set_dropD list.set_intros(1))
    with assms(1) have "y \<noteq> newline" by auto
    with y k show "rmatch (Lit [newline] # r) (drop k (w @ newline # v)) = None" by simp
  qed
qed

lemma sep_match:
  assumes "\<forall>k < length u. \<not> prefix sep (drop k (u @ sep @ x))"
    and "rmatch r x = Some (gs, rest)"
  shows "rmatch (Lazy any_char # Lit sep # r) (u @ sep @ x) = Some (u # sep # gs, rest)"
proof (rule rmatch_Lazy_shortest)
  show "\<forall>c \<in> set u. any_char c" by (simp add: any_char_def)
  show "rmatch (Lit sep # r) (sep @ x) = Some (sep # gs, rest)"
    using assms(2) by simp
  show "\<forall>k < length u. rmatch (Lit sep # r) (drop k (u @ sep @ x)) = None"
    using assms(1) by simp
qed

text \<open>A match of \<open>diff_pattern\<close> is never empty, so \<open>findall\<close> always goes on after it.\<close>

lemma rmatch_rest_length:
  "rmatch p s = Some (gs, rest) \<Longrightarrow> length rest \<le> length s"
proof (induction p s arbitrary: gs rest rule: rmatch.induct)
  case (1 s)
  then show ?case by simp
next
  case (2 l r s)
  from "2.prems" have pre: "prefix l s" by (simp split: if_splits)
  with "2.prems" obtain gs' where "rmatch r (drop (length l) s) = Some (gs', rest)"
    by (cases "rmatch r (drop (length l) s)") auto
  from "2.IH" [OF pre this] show ?case by simp
next
  case (3 P r s)
  from "3.prems" obtain c cs where s: "s = c # cs" by (cases s) auto
  with "3.prems" have P: "P c" by (simp split: if_splits)
  with "3.prems" s obtain gs' where "rmatch r cs = Some (gs', rest)"
    by (cases "rmatch r cs") auto
  from "3.IH" [OF s P this] s show ?case by simp
next
  case (4 P r s)
  show ?case
  proof (cases "rmatch r s")
    case (Some m)
    with "4.prems" obtain gs' where "rmatch r s = Some (gs', rest)"
      by (cases m) auto
    then show ?thesis by (rule "4.IH"(1))
  next
    case None
    with "4.prems" obtain c cs where s: "s = c # cs" by (cases s) auto
    with "4.prems" None have P: "P c" by (simp split: if_splits)
    with "4.prems" None s obtain g gs' where "rmatch (Lazy P # r) cs = Some (g # gs', rest)"
      by (cases "rmatch (Lazy P # r) cs") (auto split: list.splits)
    from "4.IH"(2) [OF None s P this] s show ?thesis by simp
  qed
next
  case (5 P r s)
  let ?inner = "(case s of [] \<Rightarrow> None
            | c # cs \<Rightarrow>
                if P c
                then (case rmatch (Greedy P # r) cs of
                        Some (g # gs, rest) \<Rightarrow> Some ((c # g) # gs, rest)
                      | _ \<Rightarrow> None)
                else None)"
  show ?case
  proof (cases ?inner)
    case (Some m)
    then obtain c cs where s: "s = c # cs" by (cases s) auto
    with Some have P: "P c" by (simp split: if_splits)
    from "5.prems" Some have m: "m = (gs, rest)" by simp
    with Some s P obtain g gs' where "rmatch (Greedy P # r) cs = Some (g # gs', rest)"
      by (cases "rmatch (Greedy P # r) cs") (auto split: list.splits)
    from "5.IH"(1) [OF s P this] s show ?thesis by simp
  next
    case None
    with "5.prems" obtain gs' where "rmatch r s = Some (gs', rest)"
      by (cases "rmatch r s") auto
    from "5.IH"(2) [OF None this] show ?thesis .
  qed
next
  case (6 l r s)
  from "6.prems" have c: "prefix l s \<or> s = []" by (simp split: if_splits)
  with "6.prems" obtain gs' where "rmatch r s = Some (gs', rest)"
    by (cases "rmatch r s") auto
  from "6.IH" [OF c this] show ?case .
qed

lemma rmatch_Lit_Some:
  assumes "rmatch (Lit l # r) s = Some (gs, rest)"
  shows "prefix l s \<and> (\<exists>gs'. rmatch r (drop (length l) s) = Some (gs', rest))"
  using assms by (auto split: if_splits option.splits)

lemma diff_match_not_empty:
  assumes "rmatch diff_pattern s = Some (gs, rest)"
  shows "length rest < length s"
proof -
  from assms [unfolded diff_pattern_def] obtain gs' where
    pre: "prefix ''diff --git a/'' s"
    and r: "rmatch [Lazy any_char, Lit '' b/'', Lazy any_char, Lit [newline], Lazy any_char,
                    Ahead (newline # ''diff --git a/'')]
              (drop (length ''diff --git a/'') s) = Some (gs', rest)"
    by (blast dest: rmatch_Lit_Some)
  from r have "length rest \<le> length (drop (length ''diff --git a/'') s)"
    by (rule rmatch_rest_length)
  moreover from pre have "length ''diff --git a/'' \<le> length s" by (rule prefix_length_le)
  ultimately show ?thesis by simp
qed

section \<open>The splitter on well-formed diff text\<close>

lemma body_no_overlap:
  assumes "\<not> sublist (newline # header_start) body"
    and "t = [] \<or> prefix (newline # header_start) t"
  shows "\<forall>k < length body. \<not> prefix (newline # header_start) (drop k (body @ t))"
proof (intro allI impI notI)
  fix k assume k: "k < length body"
    and p: "prefix (newline # header_start) (drop k (body @ t))"
  let ?d = "drop k body"
  have d: "?d \<noteq> []" using k by simp
  have p': "prefix (newline # header_start) (?d @ t)" using p k by simp
  have nn: "newline \<notin> set header_start" by (simp add: header_start_def)
  have pd: "prefix (newline # header_start) ?d"
  proof (cases "t = []")
    case True
    with p' show ?thesis by simp
  next
    case False
    with assms(2) have "prefix (newline # header_start) t" by simp
    then obtain t' where "t = (newline # header_start) @ t'" by (elim prefixE)
    with p' have pp: "prefix (newline # header_start) (?d @ (newline # header_start) @ t')"
      by simp
    show ?thesis by (rule unique_head_no_overlap [OF nn d pp])
  qed
  have "suffix ?d body" by (rule suffix_drop)
  with pd have "sublist (newline # header_start) body"
    unfolding sublist_altdef' by blast
  with assms(1) show False by simp
qed

lemma section_match:
  assumes wf: "wf_section (pa, pb, body)"
    and t: "t = [] \<or> prefix (newline # header_start) t"
  shows "\<exists>segs. rmatch diff_pattern (section_text (pa, pb, body) @ t) = Some (segs, t)
           \<and> diff_groups segs = (a_side pa, body)"
proof -
  let ?l = "newline # header_start"
  from wf have nl: "newline \<notin> set pa" "newline \<notin> set pb"
    and nb0: "\<not> sublist ?l (newline # body)"
    by (simp_all add: wf_section_def)
  have nb: "\<not> sublist ?l body"
    using nb0 sublist_Cons_right [of ?l newline body] by blast
  have sp: "CHR '' '' \<notin> set ''b/''" by simp
  obtain m where m:
    "pa @ '' b/'' @ (pb @ newline # body @ t) = a_side pa @ '' b/'' @ m @ (pb @ newline # body @ t)"
    "set m \<subseteq> set pa \<union> set '' b/''"
    "\<forall>k < length (a_side pa). \<not> prefix '' b/'' (drop k (pa @ '' b/'' @ (pb @ newline # body @ t)))"
    using upto_sep_split [OF sp, of pa "pb @ newline # body @ t"] unfolding a_side_def by blast
  have nlm: "newline \<notin> set (m @ pb)" using m(2) nl by auto
  have tail: "rmatch [Lazy any_char, Ahead ?l] (body @ t) = Some ([body, []], t)"
    by (rule tail_match [OF t body_no_overlap [OF nb t]])
  have line: "rmatch [Lazy any_char, Lit [newline], Lazy any_char, Ahead ?l]
                ((m @ pb) @ newline # body @ t) = Some ([m @ pb, [newline], body, []], t)"
    by (rule line_match [OF nlm tail])
  have eq: "pa @ '' b/'' @ (pb @ newline # body @ t)
              = a_side pa @ '' b/'' @ ((m @ pb) @ newline # body @ t)"
    by (simp only: m(1) append_assoc)
  have no: "\<forall>k < length (a_side pa).
              \<not> prefix '' b/'' (drop k (a_side pa @ '' b/'' @ ((m @ pb) @ newline # body @ t)))"
    using m(3) by (simp only: eq)
  have sep: "rmatch [Lazy any_char, Lit '' b/'', Lazy any_char, Lit [newline], Lazy any_char, Ahead ?l]
                (a_side pa @ '' b/'' @ ((m @ pb) @ newline # body @ t))
              = Some ([a_side pa, '' b/'', m @ pb, [newline], body, []], t)"
    by (rule sep_match [OF no line])
  have whole: "section_text (pa, pb, body) @ t
               = header_start @ (a_side pa @ '' b/'' @ ((m @ pb) @ newline # body @ t))"
  proof -
    have "section_text (pa, pb, body) @ t
            = header_start @ (pa @ '' b/'' @ (pb @ newline # body @ t))"
      by (simp add: section_text_def)
    then show ?thesis by (simp only: eq)
  qed
  have "rmatch diff_pattern (section_text (pa, pb, body) @ t)
          = Some ([header_start, a_side pa, '' b/'', m @ pb, [newline], body, []], t)"
  proof -
    have "rmatch (Lit header_start # [Lazy any_char, Lit '' b/'', Lazy any_char, Lit [newline], Lazy any_char, Ahead ?l])
            (header_start @ (a_side pa @ '' b/'' @ ((m @ pb) @ newline # body @ t)))
          = Some ([header_start, a_side pa, '' b/'', m @ pb, [newline], body, []], t)"
      by (simp only: rmatch_Lit_append sep option.case prod.case)
    moreover have "diff_pattern = Lit header_start # [Lazy any_char, Lit '' b/'', Lazy any_char, Lit [newline], Lazy any_char, Ahead ?l]"
      by (simp add: diff_pattern_def header_start_def)
    ultimately show ?thesis by (simp only: whole)
  qed
  moreover have "diff_groups [header_start, a_side pa, '' b/'', m @ pb, [newline], body, []] = (a_side pa, body)"
    by (simp add: diff_groups_def)
  ultimately show ?thesis by blast
qed

lemma rmatch_diff_None: "\<not> prefix header_start s \<Longrightarrow> rmatch diff_pattern s = None"
  by (simp add: diff_pattern_def header_start_def)

lemma findall_diff_Nil: "findall diff_pattern [] = []"
  by (subst findall.simps) (simp add: rmatch_diff_None header_start_def)

lemma findall_diff_skip:
  "\<not> prefix header_start (c # cs) \<Longrightarrow> findall diff_pattern (c # cs) = findall diff_pattern cs"
  by (subst findall.simps) (simp add: rmatch_diff_None)

lemma findall_diff_newline:
  "findall diff_pattern (newline # cs) = findall diff_pattern cs"
  by (rule findall_diff_skip) (simp add: header_start_def)

lemma section_text_nonempty: "section_text b \<noteq> []"
  by (cases b) (simp add: section_text_def header_start_def)

lemma findall_section:
  assumes "wf_section b" and "t = [] \<or> prefix (newline # header_start) t"
  shows "map diff_groups (findall diff_pattern (section_text b @ t))
           = section_groups b # map diff_groups (findall diff_pattern t)"
proof -
  obtain pa pb body where b: "b = (pa, pb, body)" by (cases b) auto
  from section_match [OF assms(1) [unfolded b] assms(2)]
  obtain segs where segs: "rmatch diff_pattern (section_text b @ t) = Some (segs, t)"
    "diff_groups segs = (a_side pa, body)"
    unfolding b by blast
  have "length t < length (section_text b @ t)"
    using section_text_nonempty [of b] by simp
  then have "findall diff_pattern (section_text b @ t) = segs # findall diff_pattern t"
    by (subst findall.simps) (simp add: segs(1))
  then show ?thesis using segs(2) by (simp add: section_groups_def b)
qed

lemma join_sections_prefix:
  "prefix header_start (join [newline] (map section_text (b # bs)))"
  by (cases bs; cases b) (simp_all add: section_text_def)

lemma findall_sections:
  assumes "\<forall>b \<in> set bs. wf_section b"
  shows "map diff_groups (findall diff_pattern (join [newline] (map section_text bs)))
           = map section_groups bs"
  using assms
proof (induction bs rule: induct_list012)
  case 1
  show ?case by (simp add: findall_diff_Nil)
next
  case (2 b)
  then have "wf_section b" by simp
  from findall_section [OF this, of "[]"] show ?case by (simp add: findall_diff_Nil)
next
  case (3 b b' bs)
  let ?t = "newline # join [newline] (map section_text (b' # bs))"
  have wf: "wf_section b" and rest: "\<forall>x \<in> set (b' # bs). wf_section x"
    using "3.prems" by simp_all
  have t: "?t = [] \<or> prefix (newline # header_start) ?t"
    using join_sections_prefix [of b' bs] by simp
  have "map diff_groups (findall diff_pattern (section_text b @ ?t))
          = section_groups b # map diff_groups (findall diff_pattern ?t)"
    by (rule findall_section [OF wf t])
  also have "findall diff_pattern ?t
               = findall diff_pattern (join [newline] (map section_text (b' # bs)))"
    by (rule findall_diff_newline)
  also have "map diff_groups \<dots> = map section_groups (b' # bs)"
    using "3.IH"(2) rest by blast
  finally show ?case by simp
qed

lemma findall_preamble:
  assumes "\<not> sublist header_start pre" and "text = [] \<or> prefix header_start text"
  shows "findall diff_pattern (pre @ text) = findall diff_pattern text"
  using assms(1)
proof (induction pre)
  case Nil
  show ?case by simp
next
  case (Cons c cs)
  have hd_unique: "CHR ''d'' \<notin> set ''iff --git a/''" by simp
  have hs: "header_start = CHR ''d'' # ''iff --git a/''" by (simp add: header_start_def)
  have np: "\<not> prefix header_start (c # cs)"
    using Cons.prems by (meson prefix_imp_sublist)
  have "\<not> prefix header_start ((c # cs) @ text)"
  proof (cases "text = []")
    case True
    with np show ?thesis by simp
  next
    case False
    with assms(2) have "prefix header_start text" by simp
    then obtain t' where t': "text = header_start @ t'" by (elim prefixE)
    show ?thesis
    proof
      assume "prefix header_start ((c # cs) @ text)"
      then have "prefix (CHR ''d'' # ''iff --git a/'') ((c # cs) @ (CHR ''d'' # ''iff --git a/'') @ t')"
        by (simp only: t' hs)
      from unique_head_no_overlap [OF hd_unique _ this]
      have "prefix (CHR ''d'' # ''iff --git a/'') (c # cs)" by blast
      then have "prefix header_start (c # cs)" by (simp only: hs)
      with np show False by simp
    qed
  qed
  then have "findall diff_pattern ((c # cs) @ text) = findall diff_pattern (cs @ text)"
    using findall_diff_skip [of c "cs @ text"] by simp
  moreover have "\<not> sublist header_start cs"
    using Cons.prems by (meson sublist_Cons_right)
  ultimately show ?case using Cons.IH by simp
qed

section \<open>Header lines of a well-formed diff text\<close>

lemma split_lines_nonempty: "split_lines s \<noteq> []"
  by (induction s) (auto split: list.splits)

lemma split_lines_append: "split_lines (a @ newline # b) = split_lines a @ split_lines b"
proof (induction a)
  case Nil
  show ?case by simp
next
  case (Cons c cs)
  obtain l ls where l: "split_lines cs = l # ls"
    using split_lines_nonempty [of cs] by (cases "split_lines cs") auto
  show ?case using Cons.IH l by simp
qed

lemma split_lines_one: "newline \<notin> set s \<Longrightarrow> split_lines s = [s]"
  by (induction s) auto

lemma first_line_prefix: "prefix (hd (split_lines s)) s"
proof (induction s)
  case Nil
  show ?case by simp
next
  case (Cons c cs)
  obtain l ls where l: "split_lines cs = l # ls"
    using split_lines_nonempty [of cs] by (cases "split_lines cs") auto
  show ?case using Cons.IH l by simp
qed

lemma later_line_after_newline:
  "l \<in> set (tl (split_lines s)) \<Longrightarrow> prefix h l \<Longrightarrow> sublist (newline # h) s"
proof (induction s)
  case Nil
  then show ?case by simp
next
  case (Cons c cs)
  obtain l0 ls where l0: "split_lines cs = l0 # ls"
    using split_lines_nonempty [of cs] by (cases "split_lines cs") auto
  show ?case
  proof (cases "c = newline")
    case True
    with Cons.prems(1) l0 have "l = l0 \<or> l \<in> set (tl (split_lines cs))" by auto
    then show ?thesis
    proof
      assume "l = l0"
      then have "prefix l cs" using first_line_prefix [of cs] l0 by simp
      with Cons.prems(2) have "prefix h cs" by (rule prefix_order.trans)
      then have "prefix (newline # h) (c # cs)" using True by simp
      then show ?thesis by (rule prefix_imp_sublist)
    next
      assume "l \<in> set (tl (split_lines cs))"
      then have "sublist (newline # h) cs" using Cons.IH Cons.prems(2) by blast
      then show ?thesis by (simp add: sublist_Cons_right)
    qed
  next
    case False
    with Cons.prems(1) l0 have "l \<in> set (tl (split_lines cs))" by simp
    then have "sublist (newline # h) cs" using Cons.IH Cons.prems(2) by blast
    then show ?thesis by (simp add: sublist_Cons_right)
  qed
qed

lemma line_after_newline:
  assumes "l \<in> set (split_lines s)" and "prefix h l"
  shows "sublist (newline # h) (newline # s)"
proof -
  obtain l0 ls where l0: "split_lines s = l0 # ls"
    using split_lines_nonempty [of s] by (cases "split_lines s") auto
  with assms(1) have "l = l0 \<or> l \<in> set (tl (split_lines s))" by auto
  then show ?thesis
  proof
    assume "l = l0"
    then have "prefix l s" using first_line_prefix [of s] l0 by simp
    with assms(2) have "prefix h s" by (rule prefix_order.trans)
    then have "prefix (newline # h) (newline # s)" by simp
    then show ?thesis by (rule prefix_imp_sublist)
  next
    assume "l \<in> set (tl (split_lines s))"
    then have "sublist (newline # h) s" using assms(2) by (rule later_line_after_newline)
    then show ?thesis by (simp add: sublist_Cons_right)
  qed
qed

lemma spec_header_count_append:
  "spec_header_count (a @ newline # b) = spec_header_count a + spec_header_count b"
  by (simp add: spec_header_count_def split_lines_append)

lemma spec_header_count_none:
  assumes "\<not> sublist (newline # header_start) (newline # s)"
  shows "spec_header_count s = 0"
proof -
  have "\<not> is_header_line l" if "l \<in> set (split_lines s)" for l
    using line_after_newline [OF that, of header_start] assms
    by (auto simp: is_header_line_def)
  then have "filter is_header_line (split_lines s) = []"
    by (simp add: filter_empty_conv)
  then show ?thesis by (simp add: spec_header_count_def)
qed

lemma spec_header_count_section:
  assumes "wf_section b"
  shows "spec_header_count (section_text b) = 1"
proof -
  obtain pa pb body where b: "b = (pa, pb, body)" by (cases b) auto
  let ?line = "header_start @ pa @ '' b/'' @ pb"
  from assms b have nl: "newline \<notin> set ?line"
    and body: "\<not> sublist (newline # header_start) (newline # body)"
    by (simp_all add: wf_section_def header_start_def)
  have "sublist '' b/'' (pa @ '' b/'' @ pb)" by (rule sublist_appendI)
  then have "is_header_line ?line" by (simp add: is_header_line_def)
  then have "spec_header_count ?line = 1"
    using split_lines_one [OF nl] by (simp add: spec_header_count_def)
  moreover have "section_text b = ?line @ newline # body"
    by (simp add: section_text_def b)
  ultimately show ?thesis
    using spec_header_count_none [OF body] by (simp only: spec_header_count_append)
qed

lemma spec_header_count_sections:
  assumes "\<forall>b \<in> set bs. wf_section b"
  shows "spec_header_count (join [newline] (map section_text bs)) = length bs"
  using assms
proof (induction bs rule: induct_list012)
  case 1
  show ?case by (simp add: spec_header_count_def is_header_line_def header_start_def)
next
  case (2 b)
  then show ?case by (simp add: spec_header_count_section)
next
  case (3 b b' bs)
  have "spec_header_count (section_text b @ newline # join [newline] (map section_text (b' # bs)))
          = spec_header_count (section_text b)
            + spec_header_count (join [newline] (map section_text (b' # bs)))"
    by (rule spec_header_count_append)
  then show ?case using "3.prems" "3.IH"(2) by (simp add: spec_header_count_section)
qed

lemma spec_header_count_preamble:
  assumes "\<not> sublist header_start pre" and "pre = [] \<or> last pre = newline"
  shows "spec_header_count (pre @ text) = spec_header_count text"
proof (cases "pre = []")
  case True
  then show ?thesis by simp
next
  case False
  with assms(2) obtain p where p: "pre = p @ [newline]"
    by (metis append_butlast_last_id)
  have "\<not> sublist (newline # header_start) (newline # p)"
  proof
    assume "sublist (newline # header_start) (newline # p)"
    then have "sublist header_start (newline # p)"
      by (meson sublist_Cons_right sublist_order.order.trans sublist_order.order_refl)
    then have "sublist header_start p"
      by (simp add: sublist_Cons_right header_start_def)
    then have "sublist header_start pre" unfolding p by (auto simp: sublist_append)
    with assms(1) show False by simp
  qed
  then have "spec_header_count p = 0" by (rule spec_header_count_none)
  then show ?thesis unfolding p by (simp add: spec_header_count_append)
qed

section \<open>Every match of the pattern\<close>

lemma rmatch_rest_suffix:
  "rmatch p s = Some (gs, rest) \<Longrightarrow> suffix rest s"
proof (induction p s arbitrary: gs rest rule: rmatch.induct)
  case (1 s)
  then show ?case by simp
next
  case (2 l r s)
  from "2.prems" have pre: "prefix l s" by (simp split: if_splits)
  with "2.prems" obtain gs' where "rmatch r (drop (length l) s) = Some (gs', rest)"
    by (cases "rmatch r (drop (length l) s)") auto
  from "2.IH" [OF pre this] have "suffix rest (drop (length l) s)" .
  then show ?case using suffix_drop suffix_order.trans by blast
next
  case (3 P r s)
  from "3.prems" obtain c cs where s: "s = c # cs" by (cases s) auto
  with "3.prems" have P: "P c" by (simp split: if_splits)
  with "3.prems" s obtain gs' where "rmatch r cs = Some (gs', rest)"
    by (cases "rmatch r cs") auto
  from "3.IH" [OF s P this] s show ?case by (simp add: suffix_ConsI)
next
  case (4 P r s)
  show ?case
  proof (cases "rmatch r s")
    case (Some m)
    with "4.prems" obtain gs' where "rmatch r s = Some (gs', rest)"
      by (cases m) auto
    then show ?thesis by (rule "4.IH"(1))
  next
    case None
    with "4.prems" obtain c cs where s: "s = c # cs" by (cases s) auto
    with "4.prems" None have P: "P c" by (simp split: if_splits)
    with "4.prems" None s obtain g gs' where "rmatch (Lazy P # r) cs = Some (g # gs', rest)"
      by (cases "rmatch (Lazy P # r) cs") (auto split: list.splits)
    from "4.IH"(2) [OF None s P this] s show ?thesis by (simp add: suffix_ConsI)
  qed
next
  case (5 P r s)
  let ?inner = "(case s of [] \<Rightarrow> None
            | c # cs \<Rightarrow>
                if P c
                then (case rmatch (Greedy P # r) cs of
                        Some (g # gs, rest) \<Rightarrow> Some ((c # g) # gs, rest)
                      | _ \<Rightarrow> None)
                else None)"
  show ?case
  proof (cases ?inner)
    case (Some m)
    then obtain c cs where s: "s = c # cs" by (cases s) auto
    with Some have P: "P c" by (simp split: if_splits)
    from "5.prems" Some have m: "m = (gs, rest)" by simp
    with Some s P obtain g gs' where "rmatch (Greedy P # r) cs = Some (g # gs', rest)"
      by (cases "rmatch (Greedy P # r) cs") (auto split: list.splits)
    from "5.IH"(1) [OF s P this] s show ?thesis by (simp add: suffix_ConsI)
  next
    case None
    with "5.prems" obtain gs' where "rmatch r s = Some (gs', rest)"
      by (cases "rmatch r s") auto
    from "5.IH"(2) [OF None this] show ?thesis .
  qed
next
  case (6 l r s)
  from "6.prems" have c: "prefix l s \<or> s = []" by (simp split: if_splits)
  with "6.prems" obtain gs' where "rmatch r s = Some (gs', rest)"
    by (cases "rmatch r s") auto
  from "6.IH" [OF c this] show ?case .
qed

lemma findall_matches:
  "gs \<in> set (findall p s) \<Longrightarrow> \<exists>t rest. suffix t s \<and> rmatch p t = Some (gs, rest)"
proof (induction p s rule: findall.induct)
  case (1 p s)
  show ?case
  proof (cases "rmatch p s")
    case None
    show ?thesis
    proof (cases s)
      case Nil
      with None "1.prems" show ?thesis by (simp add: findall.simps)
    next
      case (Cons c cs)
      with None "1.prems" have "gs \<in> set (findall p cs)"
        by (subst (asm) findall.simps) simp
      from "1.IH"(1) [OF None Cons this] obtain t rest where
        "suffix t cs" "rmatch p t = Some (gs, rest)" by blast
      with Cons show ?thesis by (auto intro: suffix_ConsI)
    qed
  next
    case (Some m)
    obtain gs0 rest0 where m: "m = (gs0, rest0)" by (cases m) auto
    have here: "suffix s s \<and> rmatch p s = Some (gs0, rest0)" using Some m by simp
    show ?thesis
    proof (cases "length rest0 < length s")
      case True
      with Some m "1.prems" have "gs = gs0 \<or> gs \<in> set (findall p rest0)"
        by (subst (asm) findall.simps) auto
      then show ?thesis
      proof
        assume "gs = gs0"
        with here show ?thesis by blast
      next
        assume "gs \<in> set (findall p rest0)"
        from "1.IH"(2) [OF Some m [symmetric] True this] obtain t rest where
          t: "suffix t rest0" "rmatch p t = Some (gs, rest)" by blast
        have "suffix rest0 s" using Some m rmatch_rest_suffix by blast
        with t show ?thesis using suffix_order.trans by blast
      qed
    next
      case False
      with Some m "1.prems" have "gs = gs0"
        by (subst (asm) findall.simps) auto
      with here show ?thesis by blast
    qed
  qed
qed

lemma tail_total:
  "\<exists>g rest. rmatch [Lazy any_char, Ahead l] s = Some ([g, []], rest) \<and> g @ rest = s"
proof (induction s)
  case Nil
  show ?case by simp
next
  case (Cons c cs)
  show ?case
  proof (cases "prefix l (c # cs)")
    case True
    then show ?thesis by simp
  next
    case False
    from Cons obtain g rest where
      ih: "rmatch [Lazy any_char, Ahead l] cs = Some ([g, []], rest)" and gr: "g @ rest = cs"
      by blast
    have a: "rmatch [Ahead l] (c # cs) = None" using False by simp
    have "rmatch [Lazy any_char, Ahead l] (c # cs) = Some ([c # g, []], rest)"
      by (subst rmatch.simps(4)) (simp only: a ih any_char_def option.case list.case if_True prod.case)
    with gr show ?thesis by simp
  qed
qed

lemma header_match:
  "\<exists>w g rest.
     rmatch diff_pattern (header_start @ pa @ '' b/'' @ pb @ newline # after)
       = Some ([header_start, a_side pa, '' b/'', w, [newline], g, []], rest)
     \<and> (newline \<notin> set pa \<and> newline \<notin> set pb \<longrightarrow> g @ rest = after)"
proof -
  let ?l = "newline # header_start"
  have sp: "CHR '' '' \<notin> set ''b/''" by simp
  obtain m where m:
    "pa @ '' b/'' @ (pb @ newline # after) = a_side pa @ '' b/'' @ m @ (pb @ newline # after)"
    "set m \<subseteq> set pa \<union> set '' b/''"
    "\<forall>k < length (a_side pa). \<not> prefix '' b/'' (drop k (pa @ '' b/'' @ (pb @ newline # after)))"
    using upto_sep_split [OF sp, of pa "pb @ newline # after"] unfolding a_side_def by blast
  let ?x = "m @ pb @ newline # after"
  let ?w = "takeWhile (\<lambda>c. c \<noteq> newline) ?x"
  let ?v = "tl (dropWhile (\<lambda>c. c \<noteq> newline) ?x)"
  have "dropWhile (\<lambda>c. c \<noteq> newline) ?x \<noteq> []" by (simp add: dropWhile_eq_Nil_conv)
  moreover have "hd (dropWhile (\<lambda>c. c \<noteq> newline) ?x) = newline"
    using hd_dropWhile [of "\<lambda>c. c \<noteq> newline" ?x] calculation by blast
  ultimately have dw: "dropWhile (\<lambda>c. c \<noteq> newline) ?x = newline # ?v"
    by (cases "dropWhile (\<lambda>c. c \<noteq> newline) ?x") auto
  have x: "?x = ?w @ newline # ?v"
    using takeWhile_dropWhile_id [of "\<lambda>c. c \<noteq> newline" ?x] dw by simp
  have nlw: "newline \<notin> set ?w" by (auto dest: set_takeWhileD)
  from tail_total [of ?l ?v] obtain g rest where
    tail: "rmatch [Lazy any_char, Ahead ?l] ?v = Some ([g, []], rest)" and gr: "g @ rest = ?v"
    by blast
  have line: "rmatch [Lazy any_char, Lit [newline], Lazy any_char, Ahead ?l] (?w @ newline # ?v)
                = Some ([?w, [newline], g, []], rest)"
    by (rule line_match [OF nlw tail])
  have eq: "pa @ '' b/'' @ (pb @ newline # after) = a_side pa @ '' b/'' @ (?w @ newline # ?v)"
    using m(1) x by simp
  have no: "\<forall>k < length (a_side pa).
              \<not> prefix '' b/'' (drop k (a_side pa @ '' b/'' @ (?w @ newline # ?v)))"
    using m(3) by (simp only: eq)
  have sep: "rmatch [Lazy any_char, Lit '' b/'', Lazy any_char, Lit [newline], Lazy any_char, Ahead ?l]
                (a_side pa @ '' b/'' @ (?w @ newline # ?v))
              = Some ([a_side pa, '' b/'', ?w, [newline], g, []], rest)"
    by (rule sep_match [OF no line])
  have whole: "header_start @ pa @ '' b/'' @ pb @ newline # after
               = header_start @ (a_side pa @ '' b/'' @ (?w @ newline # ?v))"
    using eq by simp
  have res: "rmatch diff_pattern (header_start @ pa @ '' b/'' @ pb @ newline # after)
          = Some ([header_start, a_side pa, '' b/'', ?w, [newline], g, []], rest)"
  proof -
    have "rmatch (Lit header_start # [Lazy any_char, Lit '' b/'', Lazy any_char, Lit [newline], Lazy any_char, Ahead ?l])
            (header_start @ (a_side pa @ '' b/'' @ (?w @ newline # ?v)))
          = Some ([header_start, a_side pa, '' b/'', ?w, [newline], g, []], rest)"
      by (simp only: rmatch_Lit_append sep option.case prod.case)
    moreover have "diff_pattern = Lit header_start # [Lazy any_char, Lit '' b/'', Lazy any_char, Lit [newline], Lazy any_char, Ahead ?l]"
      by (simp add: diff_pattern_def header_start_def)
    ultimately show ?thesis by (simp only: whole)
  qed
  have "g @ rest = after" if "newline \<notin> set pa \<and> newline \<notin> set pb"
  proof -
    from that m(2) have "newline \<notin> set (m @ pb)" by auto
    then have "dropWhile (\<lambda>c. c \<noteq> newline) ((m @ pb) @ newline # after)
                 = dropWhile (\<lambda>c. c \<noteq> newline) (newline # after)"
      by (intro dropWhile_append2) auto
    then have "dropWhile (\<lambda>c. c \<noteq> newline) (m @ pb @ newline # after) = newline # after"
      by simp
    then have "?v = after" by simp
    with gr show ?thesis by simp
  qed
  with res show ?thesis by blast
qed

lemma strip_parts:
  "\<exists>l r. s = l @ strip s @ r \<and> (\<forall>c \<in> set l. isspace c) \<and> (\<forall>c \<in> set r. isspace c)"
proof -
  let ?l = "takeWhile isspace s"
  let ?d = "dropWhile isspace s"
  let ?r = "rev (takeWhile isspace (rev ?d))"
  have "?d = rev (dropWhile isspace (rev ?d)) @ rev (takeWhile isspace (rev ?d))"
    by (metis rev_append rev_rev_ident takeWhile_dropWhile_id)
  then have d: "?d = strip s @ ?r"
    by (simp only: strip_def rstrip_def lstrip_def)
  have "s = ?l @ ?d" by simp
  with d have "s = ?l @ strip s @ ?r" by simp
  moreover have "\<forall>c \<in> set ?l. isspace c" by (auto dest: set_takeWhileD)
  moreover have "\<forall>c \<in> set ?r. isspace c" by (auto dest: set_takeWhileD)
  ultimately show ?thesis by blast
qed

lemma strip_ends:
  "strip s = [] \<or> (\<not> isspace (hd (strip s)) \<and> \<not> isspace (last (strip s)))"
proof (cases "strip s = []")
  case True
  then show ?thesis by simp
next
  case False
  let ?d = "dropWhile isspace s"
  let ?e = "dropWhile isspace (rev ?d)"
  have st: "strip s = rev ?e" by (simp add: strip_def rstrip_def lstrip_def)
  with False have e: "?e \<noteq> []" by simp
  then have "\<not> isspace (hd ?e)" using hd_dropWhile by blast
  with e st have last: "\<not> isspace (last (strip s))" by (simp add: last_rev)
  have d: "?d \<noteq> []"
  proof
    assume "?d = []"
    then have "?e = []" by (simp only: rev.simps(1) dropWhile.simps(1))
    with e show False by simp
  qed
  then have hd_d: "\<not> isspace (hd ?d)" using hd_dropWhile by blast
  have "?d = rev ?e @ rev (takeWhile isspace (rev ?d))"
    by (metis rev_append rev_rev_ident takeWhile_dropWhile_id)
  then have "?d = strip s @ rev (takeWhile isspace (rev ?d))" by (simp only: st)
  with False have "hd ?d = hd (strip s)" by (metis hd_append2)
  with hd_d last show ?thesis by simp
qed

section \<open>What the splitter returns\<close>

lemma split_by_file_sections:
  assumes "\<forall>b \<in> set bs. wf_section b" and "\<not> sublist header_start pre"
  shows "files (split_by_file (state\<lparr>pr_diff := pre @ join [newline] (map section_text bs)\<rparr>))
           = map (\<lambda>b. new_file (section_groups b)) bs"
proof -
  let ?text = "join [newline] (map section_text bs)"
  have "?text = [] \<or> prefix header_start ?text"
    using join_sections_prefix by (cases bs) auto
  then have "findall diff_pattern (pre @ ?text) = findall diff_pattern ?text"
    by (rule findall_preamble [OF assms(2)])
  then have "map diff_groups (findall diff_pattern (pre @ ?text)) = map section_groups bs"
    using findall_sections [OF assms(1)] by simp
  then show ?thesis by (simp add: split_by_file_def)
qed

lemma new_file_section:
  "diff (new_file (section_groups b)) = strip (section_body b)"
  "filename (new_file (section_groups b)) = strip (a_side (section_a_path b))"
  by (cases b; simp add: new_file_def section_groups_def section_body_def section_a_path_def)+

text \<open>
  C1 (as amended). Let a diff text consist of leading lines in which \<open>diff --git a/\<close> does
  not occur, followed by N sections joined by newlines, each section a header line
  \<open>diff --git a/<pathA> b/<pathB>\<close>, a newline and a body no line of which starts with
  \<open>diff --git a/\<close>. Then the text has N header lines, and the splitter returns N records,
  in the order of the sections, the \<open>diff\<close> of each being the body of its section (the
  text after the header line, up to the newline before the next header or to the end)
  stripped of leading and trailing whitespace. With no section, the result is empty.
\<close>

theorem split_by_file_well_formed:
  assumes "\<forall>b \<in> set bs. wf_section b"
    and "\<not> sublist header_start pre" and "pre = [] \<or> last pre = newline"
  shows "spec_header_count (pre @ join [newline] (map section_text bs)) = length bs
       \<and> length (files (split_by_file
            (state\<lparr>pr_diff := pre @ join [newline] (map section_text bs)\<rparr>))) = length bs
       \<and> map diff (files (split_by_file
            (state\<lparr>pr_diff := pre @ join [newline] (map section_text bs)\<rparr>)))
           = map (\<lambda>b. strip (section_body b)) bs"
proof -
  have "spec_header_count (pre @ join [newline] (map section_text bs)) = length bs"
    using spec_header_count_preamble [OF assms(2,3)] spec_header_count_sections [OF assms(1)]
    by simp
  then show ?thesis
    by (simp add: split_by_file_sections [OF assms(1,2)] new_file_section comp_def)
qed
theorem split_by_file_well_formed_witness:
  "wf_section (''a.cls'', ''a.cls'', ''hunk1'')
   \<and> wf_section (''b.txt'', ''b.txt'', ''hunk2'' @ [newline])
   \<and> \<not> sublist header_start []
   \<and> spec_header_count
        (''diff --git a/a.cls b/a.cls'' @ [newline] @ ''hunk1'' @ [newline]
         @ ''diff --git a/b.txt b/b.txt'' @ [newline] @ ''hunk2'' @ [newline]) = 2
   \<and> map diff (files (split_by_file
        \<lparr>pr_url = ''u'',
         pr_diff = ''diff --git a/a.cls b/a.cls'' @ [newline] @ ''hunk1'' @ [newline]
                   @ ''diff --git a/b.txt b/b.txt'' @ [newline] @ ''hunk2'' @ [newline],
         files = [], dev_summary = [], pr_business_summary = []\<rparr>))
      = [''hunk1'', ''hunk2'']"
proof -
  have w1: "wf_section (''a.cls'', ''a.cls'', ''hunk1'')"
    by (simp add: wf_section_def header_start_def sublist_Cons_right)
  have w2: "wf_section (''b.txt'', ''b.txt'', ''hunk2'' @ [newline])"
    by (simp add: wf_section_def header_start_def sublist_Cons_right)
  have w: "\<forall>b \<in> set [(''a.cls'', ''a.cls'', ''hunk1''), (''b.txt'', ''b.txt'', ''hunk2'' @ [newline])].
             wf_section b"
    using w1 w2 by simp
  have p: "\<not> sublist header_start []" by (simp add: header_start_def)
  have q: "[] = [] \<or> last [] = newline" by simp
  have s1: "strip ''hunk1'' = ''hunk1''"
    by (simp add: strip_def lstrip_def rstrip_def isspace_def)
  have s2: "strip (''hunk2'' @ [newline]) = ''hunk2''"
    by (simp add: strip_def lstrip_def rstrip_def isspace_def)
  show ?thesis
    using split_by_file_well_formed [OF w p q,
        of "\<lparr>pr_url = ''u'', pr_diff = [], files = [], dev_summary = [], pr_business_summary = []\<rparr>"]
      w1 w2 p s1 s2
    by (simp add: section_text_def header_start_def section_body_def)
qed

text \<open>
  C1 as stated fails where a header line directly follows another: the text below has two
  header lines, and the splitter returns one record, whose \<open>diff\<close> holds the second header.
\<close>

theorem split_by_file_adjacent_headers:
  "spec_header_count
     (''diff --git a/x b/x'' @ [newline] @ ''diff --git a/y b/y'' @ [newline] @ ''z'') = 2
   \<and> map diff (files (split_by_file
        \<lparr>pr_url = ''u'',
         pr_diff = ''diff --git a/x b/x'' @ [newline] @ ''diff --git a/y b/y'' @ [newline] @ ''z'',
         files = [], dev_summary = [], pr_business_summary = []\<rparr>))
      = [''diff --git a/y b/y'' @ [newline] @ ''z'']"
proof -
  have "spec_header_count
     (''diff --git a/x b/x'' @ [newline] @ ''diff --git a/y b/y'' @ [newline] @ ''z'') = 2"
    by (simp add: spec_header_count_def is_header_line_def header_start_def sublist_Cons_right)
  moreover have "findall diff_pattern
      (''diff --git a/x b/x'' @ [newline] @ ''diff --git a/y b/y'' @ [newline] @ ''z'')
      = [[''diff --git a/'', ''x'', '' b/'', ''x'', [newline],
          ''diff --git a/y b/y'' @ [newline] @ ''z'', []]]"
    by (simp add: findall.simps diff_pattern_def any_char_def)
  moreover have "strip (''diff --git a/y b/y'' @ [newline] @ ''z'') = ''diff --git a/y b/y'' @ [newline] @ ''z''"
    by (simp add: strip_def lstrip_def rstrip_def isspace_def)
  ultimately show ?thesis
    by (simp add: split_by_file_def diff_groups_def new_file_def)
qed

lemma a_side_prefix: "prefix (a_side pa) pa"
  by (simp add: a_side_def upto_sep_prefix)

lemma a_side_whole: "\<not> sublist '' b/'' pa \<Longrightarrow> a_side pa = pa"
  unfolding a_side_def by (rule upto_sep_no_sep)

text \<open>
  In a well-formed diff text every header is matched: the names of the records are the
  a-side paths of the sections, stripped, in the order of the sections.
\<close>

lemma split_by_file_filenames_sections:
  assumes "\<forall>b \<in> set bs. wf_section b" and "\<not> sublist header_start pre"
  shows "map filename (files (split_by_file
            (state\<lparr>pr_diff := pre @ join [newline] (map section_text bs)\<rparr>)))
           = map (\<lambda>b. strip (a_side (section_a_path b))) bs
       \<and> (\<forall>b \<in> set bs. prefix (a_side (section_a_path b)) (section_a_path b)
              \<and> (\<not> sublist '' b/'' (section_a_path b)
                    \<longrightarrow> a_side (section_a_path b) = section_a_path b))"
  by (simp add: split_by_file_sections [OF assms] new_file_section comp_def
        a_side_prefix a_side_whole)

text \<open>
  C10. Every record the splitter returns comes from a match of the pattern at some
  position of the diff text. Whenever the text at that position reads as a header
  \<open>diff --git a/<pa> b/<pb>\<close>, a newline and more text, the \<open>filename\<close> of the record is
  \<open>a_side pa\<close> (the a-side path up to its first \<open>'' b/''\<close>, the whole of it when \<open>'' b/''\<close> does
  not occur in it) with the whitespace at its two ends taken off: what is taken off is
  whitespace only, and the name neither begins nor ends with whitespace. The path \<open>pb\<close>
  takes no part in the record: for a header on one line, the \<open>diff\<close> of the record is made
  of the text after the header line.
\<close>

theorem split_by_file_filename_a_side:
  assumes "f \<in> set (files (split_by_file state))"
  shows "\<exists>t gs rest.
           suffix t (pr_diff state) \<and> rmatch diff_pattern t = Some (gs, rest)
         \<and> f = new_file (diff_groups gs)
         \<and> (\<forall>pa pb after.
               t = ''diff --git a/'' @ pa @ '' b/'' @ pb @ newline # after \<longrightarrow>
                 filename f = strip (a_side pa)
               \<and> prefix (a_side pa) pa
               \<and> (\<not> sublist '' b/'' pa \<longrightarrow> a_side pa = pa)
               \<and> (\<exists>l r. a_side pa = l @ filename f @ r
                      \<and> (\<forall>c \<in> set l. isspace c) \<and> (\<forall>c \<in> set r. isspace c))
               \<and> (filename f = []
                    \<or> (\<not> isspace (hd (filename f)) \<and> \<not> isspace (last (filename f))))
               \<and> (newline \<notin> set pa \<and> newline \<notin> set pb \<longrightarrow>
                    (\<exists>g. prefix g after \<and> diff f = strip g)))"
proof -
  from assms obtain gs where gs: "gs \<in> set (findall diff_pattern (pr_diff state))"
    and f: "f = new_file (diff_groups gs)"
    by (auto simp: split_by_file_def)
  from findall_matches [OF gs] obtain t rest where
    t: "suffix t (pr_diff state)" "rmatch diff_pattern t = Some (gs, rest)" by blast
  have "filename f = strip (a_side pa)
      \<and> prefix (a_side pa) pa
      \<and> (\<not> sublist '' b/'' pa \<longrightarrow> a_side pa = pa)
      \<and> (\<exists>l r. a_side pa = l @ filename f @ r
             \<and> (\<forall>c \<in> set l. isspace c) \<and> (\<forall>c \<in> set r. isspace c))
      \<and> (filename f = [] \<or> (\<not> isspace (hd (filename f)) \<and> \<not> isspace (last (filename f))))
      \<and> (newline \<notin> set pa \<and> newline \<notin> set pb \<longrightarrow> (\<exists>g. prefix g after \<and> diff f = strip g))"
    if here: "t = ''diff --git a/'' @ pa @ '' b/'' @ pb @ newline # after" for pa pb after
  proof -
    from header_match [of pa pb after] obtain w g rest' where
      m: "rmatch diff_pattern (header_start @ pa @ '' b/'' @ pb @ newline # after)
            = Some ([header_start, a_side pa, '' b/'', w, [newline], g, []], rest')"
      and one_line: "newline \<notin> set pa \<and> newline \<notin> set pb \<longrightarrow> g @ rest' = after"
      by blast
    from m t(2) here have "gs = [header_start, a_side pa, '' b/'', w, [newline], g, []]"
      by (simp add: header_start_def)
    then have groups: "diff_groups gs = (a_side pa, g)" by (simp add: diff_groups_def)
    have name: "filename f = strip (a_side pa)" and d: "diff f = strip g"
      using f groups by (simp_all add: new_file_def)
    have "\<exists>l r. a_side pa = l @ filename f @ r
             \<and> (\<forall>c \<in> set l. isspace c) \<and> (\<forall>c \<in> set r. isspace c)"
      unfolding name by (rule strip_parts)
    moreover have "filename f = []
                     \<or> (\<not> isspace (hd (filename f)) \<and> \<not> isspace (last (filename f)))"
      unfolding name by (rule strip_ends)
    moreover have "newline \<notin> set pa \<and> newline \<notin> set pb \<longrightarrow> (\<exists>g. prefix g after \<and> diff f = strip g)"
      using one_line d by (metis prefixI)
    ultimately show ?thesis
      using name a_side_prefix [of pa] a_side_whole [of pa] by blast
  qed
  with t f show ?thesis by blast
qed

theorem split_by_file_filename_a_side_witness:
  "files (split_by_file
     \<lparr>pr_url = ''u'', pr_diff = ''diff --git a/ old.txt  b/new.txt'' @ [newline] @ ''@@'',
      files = [], dev_summary = [], pr_business_summary = []\<rparr>)
   = [\<lparr>filename = ''old.txt'', diff = ''@@'', is_apex = False,
       explanation = [], review_comments = [], business_summary = []\<rparr>]
   \<and> (\<exists>t gs rest.
         suffix t (''diff --git a/ old.txt  b/new.txt'' @ [newline] @ ''@@'')
       \<and> rmatch diff_pattern t = Some (gs, rest)
       \<and> \<lparr>filename = ''old.txt'', diff = ''@@'', is_apex = False,
           explanation = [], review_comments = [], business_summary = []\<rparr>
          = new_file (diff_groups gs))"
proof -
  let ?state = "\<lparr>pr_url = ''u'', pr_diff = ''diff --git a/ old.txt  b/new.txt'' @ [newline] @ ''@@'',
      files = [], dev_summary = [], pr_business_summary = []\<rparr>"
  let ?f = "\<lparr>filename = ''old.txt'', diff = ''@@'', is_apex = False,
       explanation = [], review_comments = [], business_summary = []\<rparr>"
  have "findall diff_pattern (''diff --git a/ old.txt  b/new.txt'' @ [newline] @ ''@@'')
      = [[''diff --git a/'', '' old.txt '', '' b/'', ''new.txt'', [newline], ''@@'', []]]"
    by (simp add: findall.simps diff_pattern_def any_char_def)
  moreover have "strip '' old.txt '' = ''old.txt''" "strip ''@@'' = ''@@''"
    by (simp_all add: strip_def lstrip_def rstrip_def isspace_def)
  moreover have "\<not> is_apex_file '' old.txt ''"
    by (simp add: is_apex_file_def endswith_def)
  ultimately have fs: "files (split_by_file ?state) = [?f]"
    by (simp add: split_by_file_def diff_groups_def new_file_def)
  then have "?f \<in> set (files (split_by_file ?state))" by simp
  from split_by_file_filename_a_side [OF this] have
    "\<exists>t gs rest.
         suffix t (''diff --git a/ old.txt  b/new.txt'' @ [newline] @ ''@@'')
       \<and> rmatch diff_pattern t = Some (gs, rest)
       \<and> ?f = new_file (diff_groups gs)"
    by (simp only: PRState.simps) blast
  with fs show ?thesis by (intro conjI)
qed

text \<open>
  C4. \<open>split_by_file\<close> stores the stripped name and tests the unstripped one. For a path
  that ends in a space the record's \<open>filename\<close> ends in \<open>.cls\<close> and its \<open>is_apex\<close> is false.
\<close>

theorem split_by_file_trailing_space:
  "files (split_by_file
     \<lparr>pr_url = ''u'', pr_diff = ''diff --git a/Foo.cls  b/Foo.cls '' @ [newline] @ ''@@'',
      files = [], dev_summary = [], pr_business_summary = []\<rparr>)
   = [\<lparr>filename = ''Foo.cls'', diff = ''@@'', is_apex = False,
       explanation = [], review_comments = [], business_summary = []\<rparr>]
   \<and> endswith ''Foo.cls'' ''.cls''"
proof -
  have "findall diff_pattern (''diff --git a/Foo.cls  b/Foo.cls '' @ [newline] @ ''@@'')
      = [[''diff --git a/'', ''Foo.cls '', '' b/'', ''Foo.cls '', [newline], ''@@'', []]]"
    by (simp add: findall.simps diff_pattern_def any_char_def)
  moreover have "strip ''Foo.cls '' = ''Foo.cls''" "strip ''@@'' = ''@@''"
    by (simp_all add: strip_def lstrip_def rstrip_def isspace_def)
  moreover have "\<not> is_apex_file ''Foo.cls ''" "endswith ''Foo.cls'' ''.cls''"
    by (simp_all add: is_apex_file_def endswith_def)
  ultimately show ?thesis
    by (simp add: split_by_file_def diff_groups_def new_file_def)
qed

text \<open>
  What does hold of the flag: it is the test of the name as the header gives it, so it is
  the test of the record's \<open>filename\<close> whenever stripping leaves that name unchanged.
\<close>

lemma new_file_is_apex:
  "is_apex (new_file (name, d)) = (endswith name ''.cls'' \<or> endswith name ''.trigger'')"
  by (simp add: new_file_def is_apex_file_def)

section \<open>The calls of the File Analyzer and of the Aggregator\<close>














section \<open>The records of the job store\<close>

text \<open>Every record of the store has one of the three shapes the program writes.\<close>

lemma states_head: "\<exists>rest. states evs s = s # rest"
  by (cases evs) auto

lemma written_analyze_pr:
  assumes "\<forall>j job. store j = Some job \<longrightarrow> written_record job"
  shows "\<forall>j job. analyze_pr i store j = Some job \<longrightarrow> written_record job"
proof (intro allI impI)
  fix j job assume "analyze_pr i store j = Some job"
  then have "job = [''status'' \<mapsto> PStr ''processing'', ''result'' \<mapsto> PNone] \<or> store j = Some job"
    by (cases "j = i") (simp_all add: analyze_pr_def)
  with assms show "written_record job" by (auto simp: written_record_def)
qed

lemma written_run_job:
  assumes "\<forall>j job. store j = Some job \<longrightarrow> written_record job"
  shows "\<forall>j job. run_job i out store j = Some job \<longrightarrow> written_record job"
proof (intro allI impI)
  fix j job assume a: "run_job i out store j = Some job"
  show "written_record job"
  proof (cases "j = i")
    case True
    with a show ?thesis
      by (cases out) (auto simp: run_job_def written_record_def)
  next
    case False
    with a have "store j = Some job" by (cases out) (simp_all add: run_job_def)
    with assms show ?thesis by blast
  qed
qed

lemma written_step:
  assumes "step e s = Some s'"
    and "\<forall>j job. job_store s j = Some job \<longrightarrow> written_record job"
  shows "\<forall>j job. job_store s' j = Some job \<longrightarrow> written_record job"
proof (cases e)
  case (Submit i)
  with assms(1) have "job_store s' = analyze_pr i (job_store s)" by auto
  then show ?thesis using written_analyze_pr [OF assms(2)] by simp
next
  case (Submit_unstarted i)
  with assms(1) have "job_store s' = analyze_pr i (job_store s)" by auto
  then show ?thesis using written_analyze_pr [OF assms(2)] by simp
next
  case (Finish i out)
  with assms(1) have "job_store s' = run_job i out (job_store s)"
    by (auto split: if_splits)
  then show ?thesis using written_run_job [OF assms(2)] by simp
next
  case (Abort i)
  with assms(1) have "job_store s' = job_store s" by (auto split: if_splits)
  with assms(2) show ?thesis by simp
next
  case (Poll i)
  with assms show ?thesis by simp
qed

lemma written_states:
  assumes "\<forall>j job. job_store s j = Some job \<longrightarrow> written_record job"
    and "t \<in> set (states evs s)" and "job_store t j = Some job"
  shows "written_record job"
  using assms
proof (induction evs arbitrary: s)
  case Nil
  then show ?case by simp
next
  case (Cons e es)
  show ?case
  proof (cases "t = s")
    case True
    with Cons.prems(1,3) show ?thesis by blast
  next
    case False
    with Cons.prems(2) obtain s' where s': "step e s = Some s'" "t \<in> set (states es s')"
      by (cases "step e s") auto
    from written_step [OF s'(1) Cons.prems(1)] s'(2) Cons.prems(3) show ?thesis
      by (rule Cons.IH)
  qed
qed

lemma written_present:
  assumes "written_record job"
  shows "(present job ''result'' \<longleftrightarrow> job ''status'' = Some (PStr ''done''))
       \<and> (present job ''error'' \<longleftrightarrow> job ''status'' = Some (PStr ''error''))"
proof -
  from assms consider
    "job = [''status'' \<mapsto> PStr ''processing'', ''result'' \<mapsto> PNone]"
    | r where "job = [''status'' \<mapsto> PStr ''done'', ''result'' \<mapsto> PState r]"
    | m where "job = [''status'' \<mapsto> PStr ''error'', ''error'' \<mapsto> PStr m]"
    unfolding written_record_def by blast
  then show ?thesis by cases (simp_all add: present_def)
qed

lemma invoke_fetch_raises:
  assumes "fst (requests_get a (u @ ''.diff'') (outside w)) = Inl e"
  shows "fst (invoke a u w) = Inl e"
  using assms by (simp add: invoke_def and_then_def fetch_pr_diff_def Let_def)

text \<open>
  C3 (as amended). In every record of the store, at any time, the \<open>result\<close> field is present
  exactly when the status is \<open>done\<close> and the \<open>error\<close> field exactly when the status is
  \<open>error\<close>. When the pipeline of a job raises an exception (as it does when the fetch
  raises), \<open>run_job\<close> stores the status \<open>error\<close> with the text of the exception as the error
  message, and the record has no \<open>result\<close> field.
\<close>

theorem job_record_fields:
  "(\<forall>s \<in> set (states evs start). \<forall>job_id job. job_store s job_id = Some job \<longrightarrow>
       (present job ''result'' \<longleftrightarrow> job ''status'' = Some (PStr ''done''))
     \<and> (present job ''error'' \<longleftrightarrow> job ''status'' = Some (PStr ''error'')))
   \<and> (fst (requests_get a (u @ ''.diff'') (outside w)) = Inl e \<longrightarrow> fst (invoke a u w) = Inl e)
   \<and> job_field (run_job i (Inl e) store) i ''status'' = Some (PStr ''error'')
   \<and> job_field (run_job i (Inl e) store) i ''error'' = Some (PStr e)
   \<and> job_field (run_job i (Inl e) store) i ''result'' = None"
proof -
  have init: "\<forall>j job. job_store start j = Some job \<longrightarrow> written_record job"
    by (simp add: start_def)
  have "\<forall>s \<in> set (states evs start). \<forall>job_id job. job_store s job_id = Some job \<longrightarrow>
       (present job ''result'' \<longleftrightarrow> job ''status'' = Some (PStr ''done''))
     \<and> (present job ''error'' \<longleftrightarrow> job ''status'' = Some (PStr ''error''))"
  proof (intro ballI allI impI)
    fix s job_id job
    assume "s \<in> set (states evs start)" "job_store s job_id = Some job"
    with init have "written_record job" by (rule written_states)
    then show "(present job ''result'' \<longleftrightarrow> job ''status'' = Some (PStr ''done''))
       \<and> (present job ''error'' \<longleftrightarrow> job ''status'' = Some (PStr ''error''))"
      by (rule written_present)
  qed
  moreover have "fst (requests_get a (u @ ''.diff'') (outside w)) = Inl e
                   \<longrightarrow> fst (invoke a u w) = Inl e"
    using invoke_fetch_raises by blast
  moreover have "job_field (run_job i (Inl e) store) i ''status'' = Some (PStr ''error'')"
    "job_field (run_job i (Inl e) store) i ''error'' = Some (PStr e)"
    "job_field (run_job i (Inl e) store) i ''result'' = None"
    by (simp_all add: job_field_def run_job_def)
  ultimately show ?thesis by (intro conjI)
qed

text \<open>
  C3 as stated also has the error message of a failed job non-empty. The message is the
  text of the exception, whatever it is: an exception whose text is empty gives an empty
  message.
\<close>

theorem run_job_empty_message:
  "job_field (run_job ''j'' (Inl []) (analyze_pr ''j'' Map.empty)) ''j'' ''status''
     = Some (PStr ''error'')
   \<and> job_field (run_job ''j'' (Inl []) (analyze_pr ''j'' Map.empty)) ''j'' ''error''
     = Some (PStr [])"
  by (simp add: job_field_def run_job_def)
theorem job_record_fields_witness:
  "fst (requests_get offline (''u'' @ ''.diff'') (outside quiet)) = Inl ''no route to host''
   \<and> fst (invoke offline ''u'' quiet) = Inl ''no route to host''
   \<and> job_store (last (states [Submit ''j'', Finish ''j'' (Inl ''no route to host'')] start)) ''j''
       = Some [''status'' \<mapsto> PStr ''error'', ''error'' \<mapsto> PStr ''no route to host'']
   \<and> present [''status'' \<mapsto> PStr ''error'', ''error'' \<mapsto> PStr ''no route to host''] ''error''
   \<and> \<not> present [''status'' \<mapsto> PStr ''error'', ''error'' \<mapsto> PStr ''no route to host''] ''result''"
proof -
  let ?evs = "[Submit ''j'', Finish ''j'' (Inl ''no route to host'')]"
  let ?job = "[''status'' \<mapsto> PStr ''error'', ''error'' \<mapsto> PStr ''no route to host'']"
  have get: "fst (requests_get offline (''u'' @ ''.diff'') (outside quiet)) = Inl ''no route to host''"
    by (simp add: offline_def)
  have mem: "last (states ?evs start) \<in> set (states ?evs start)"
    by (rule last_in_set) simp
  have job: "job_store (last (states ?evs start)) ''j'' = Some ?job"
    by (simp add: start_def analyze_pr_def run_job_def)
  have st: "?job ''status'' = Some (PStr ''error'')" by simp
  note inst = job_record_fields [of ?evs offline "''u''" quiet "''no route to host''" "''j''" Map.empty]
  from inst get have inv: "fst (invoke offline ''u'' quiet) = Inl ''no route to host''" by blast
  from inst mem job have
    "(present ?job ''result'' \<longleftrightarrow> ?job ''status'' = Some (PStr ''done''))
     \<and> (present ?job ''error'' \<longleftrightarrow> ?job ''status'' = Some (PStr ''error''))"
    by blast
  with st have "present ?job ''error''" "\<not> present ?job ''result''" by simp_all
  with get inv job show ?thesis by (intro conjI)
qed

section \<open>The life of a job\<close>

lemma count_list_remove1:
  "count_list (remove1 i xs) j
     = (if i = j \<and> i \<in> set xs then count_list xs j - 1 else count_list xs j)"
  by (induction xs) auto

lemma status_of_submit:
  "status_of j (s\<lparr>job_store := analyze_pr i (job_store s), threads := ts\<rparr>)
     = (if i = j then Some (PStr ''processing'') else status_of j s)"
  by (simp add: status_of_def job_field_def analyze_pr_def)

lemma status_of_finish:
  "status_of j (s\<lparr>job_store := run_job i out (job_store s), threads := ts\<rparr>)
     = (if i = j then (case out of Inl e \<Rightarrow> Some (PStr ''error'') | Inr r \<Rightarrow> Some (PStr ''done''))
        else status_of j s)"
  by (cases out) (simp_all add: status_of_def job_field_def run_job_def)

lemma status_of_threads:
  "status_of j (s\<lparr>threads := ts\<rparr>) = status_of j s"
  by (simp add: status_of_def)

lemma status_of_store:
  "status_of j (s\<lparr>job_store := analyze_pr i (job_store s)\<rparr>)
     = (if i = j then Some (PStr ''processing'') else status_of j s)"
  by (simp add: status_of_def job_field_def analyze_pr_def)

lemma consistent_step:
  assumes "step e s = Some s'" and "consistent j s"
    and "status_of j s \<noteq> None \<longrightarrow> e \<noteq> Submit j \<and> e \<noteq> Submit_unstarted j"
  shows "consistent j s'
       \<and> (status_of j s' = status_of j s
          \<or> (status_of j s = None \<and> status_of j s' = Some (PStr ''processing'')
              \<and> (e = Submit j \<or> e = Submit_unstarted j))
          \<or> (status_of j s = Some (PStr ''processing'')
              \<and> (status_of j s' = Some (PStr ''done'') \<or> status_of j s' = Some (PStr ''error''))))"
proof (cases e)
  case (Submit i)
  with assms(1) have s': "s' = s\<lparr>job_store := analyze_pr i (job_store s), threads := threads s @ [i]\<rparr>"
    by simp
  show ?thesis
  proof (cases "i = j")
    case True
    with Submit assms(3) have none: "status_of j s = None" by blast
    with assms(2) have "count_list (threads s) j = 0" by (simp add: consistent_def)
    with True none Submit show ?thesis
      unfolding s' consistent_def by (simp add: status_of_submit)
  next
    case False
    with assms(2) show ?thesis
      unfolding s' consistent_def
      by (auto simp: status_of_submit split: option.splits if_splits)
  qed
next
  case (Finish i out)
  with assms(1) have mem: "i \<in> set (threads s)"
    and s': "s' = s\<lparr>job_store := run_job i out (job_store s), threads := remove1 i (threads s)\<rparr>"
    by (auto split: if_splits)
  show ?thesis
  proof (cases "i = j")
    case True
    with mem have "count_list (threads s) j \<noteq> 0" by (simp add: count_list_0_iff)
    with assms(2) have proc: "status_of j s = Some (PStr ''processing'')"
      and one: "count_list (threads s) j = 1"
      by (auto simp: consistent_def split: option.splits if_splits)
    with True mem show ?thesis
      unfolding s' consistent_def
      by (cases out) (simp_all add: status_of_finish count_list_remove1)
  next
    case False
    with assms(2) show ?thesis
      unfolding s' consistent_def
      by (auto simp: status_of_finish count_list_remove1 split: option.splits if_splits)
  qed
next
  case (Submit_unstarted i)
  with assms(1) have s': "s' = s\<lparr>job_store := analyze_pr i (job_store s)\<rparr>" by simp
  show ?thesis
  proof (cases "i = j")
    case True
    with Submit_unstarted assms(3) have none: "status_of j s = None" by blast
    with assms(2) have "count_list (threads s) j = 0" by (simp add: consistent_def)
    with True none Submit_unstarted show ?thesis
      unfolding s' consistent_def by (simp add: status_of_store)
  next
    case False
    with assms(2) show ?thesis
      unfolding s' consistent_def
      by (auto simp: status_of_store split: option.splits if_splits)
  qed
next
  case (Abort i)
  with assms(1) have mem: "i \<in> set (threads s)"
    and s': "s' = s\<lparr>threads := remove1 i (threads s)\<rparr>"
    by (auto split: if_splits)
  show ?thesis
    using assms(2) unfolding s' consistent_def
    by (auto simp: status_of_threads count_list_remove1 split: option.splits if_splits)
next
  case (Poll i)
  with assms show ?thesis by simp
qed

lemma submitted_Cons:
  "set (submitted es) \<subseteq> set (submitted (e # es))"
  "distinct (submitted (e # es)) \<Longrightarrow> distinct (submitted es)"
  "distinct (submitted (Submit j # es)) \<Longrightarrow> j \<notin> set (submitted es)"
  "distinct (submitted (Submit_unstarted j # es)) \<Longrightarrow> j \<notin> set (submitted es)"
  by (cases e; auto)+

lemma histories_step:
  assumes "r \<in> histories_from v'" and "hd r = v'"
    and "v' = v \<or> (v = None \<and> v' = Some (PStr ''processing''))
         \<or> (v = Some (PStr ''processing'')
             \<and> (v' = Some (PStr ''done'') \<or> v' = Some (PStr ''error'')))"
  shows "(if v = v' then r else v # r) \<in> histories_from v"
  using assms by (auto simp: histories_from_def split: if_splits)

lemma remdups_adj_Cons_hd:
  "xs \<noteq> [] \<Longrightarrow>
     remdups_adj (x # xs) = (if x = hd xs then remdups_adj xs else x # remdups_adj xs)"
  by (cases xs) auto

lemma remdups_adj_hd: "xs \<noteq> [] \<Longrightarrow> hd (remdups_adj xs) = hd xs"
  by (cases xs) (simp_all add: remdups_adj_Cons split: list.splits)

lemma lifecycle_from:
  assumes "consistent j s" and "distinct (submitted evs)"
    and "status_of j s \<noteq> None \<longrightarrow> j \<notin> set (submitted evs)"
  shows "remdups_adj (map (status_of j) (states evs s)) \<in> histories_from (status_of j s)
       \<and> (\<forall>t \<in> set (states evs s). consistent j t)"
  using assms
proof (induction evs arbitrary: s)
  case Nil
  then show ?case by (simp add: histories_from_def)
next
  case (Cons e es)
  show ?case
  proof (cases "step e s")
    case None
    with Cons.prems(1) show ?thesis by (simp add: histories_from_def)
  next
    case (Some s')
    have no_resubmit: "status_of j s \<noteq> None \<longrightarrow> e \<noteq> Submit j \<and> e \<noteq> Submit_unstarted j"
      using Cons.prems(3) by auto
    from consistent_step [OF Some Cons.prems(1) no_resubmit]
    have cons': "consistent j s'"
      and change: "status_of j s' = status_of j s
          \<or> (status_of j s = None \<and> status_of j s' = Some (PStr ''processing'')
              \<and> (e = Submit j \<or> e = Submit_unstarted j))
          \<or> (status_of j s = Some (PStr ''processing'')
              \<and> (status_of j s' = Some (PStr ''done'') \<or> status_of j s' = Some (PStr ''error'')))"
      by blast+
    have dist': "distinct (submitted es)"
      using Cons.prems(2) by (rule submitted_Cons(2))
    have fresh': "status_of j s' \<noteq> None \<longrightarrow> j \<notin> set (submitted es)"
    proof
      assume known: "status_of j s' \<noteq> None"
      show "j \<notin> set (submitted es)"
      proof (cases "status_of j s = None")
        case True
        with change known have "e = Submit j \<or> e = Submit_unstarted j" by auto
        with Cons.prems(2) show ?thesis using submitted_Cons(3,4) by blast
      next
        case False
        with Cons.prems(3) have "j \<notin> set (submitted (e # es))" by blast
        then show ?thesis using submitted_Cons(1) by blast
      qed
    qed
    from Cons.IH [OF cons' dist' fresh']
    have ih: "remdups_adj (map (status_of j) (states es s')) \<in> histories_from (status_of j s')"
      and all': "\<forall>t \<in> set (states es s'). consistent j t" by blast+
    obtain rest where rest: "states es s' = s' # rest" using states_head by blast
    let ?r = "remdups_adj (map (status_of j) (states es s'))"
    have hd: "hd ?r = status_of j s'"
      using remdups_adj_hd [of "map (status_of j) (states es s')"] rest by simp
    have "remdups_adj (map (status_of j) (states (e # es) s))
            = (if status_of j s = status_of j s' then ?r else status_of j s # ?r)"
      using Some rest
        remdups_adj_Cons_hd [of "map (status_of j) (states es s')" "status_of j s"]
      by simp
    moreover have "(if status_of j s = status_of j s' then ?r else status_of j s # ?r)
                     \<in> histories_from (status_of j s)"
      by (rule histories_step [OF ih hd]) (use change in blast)
    ultimately have "remdups_adj (map (status_of j) (states (e # es) s))
                       \<in> histories_from (status_of j s)" by simp
    moreover have "\<forall>t \<in> set (states (e # es) s). consistent j t"
      using Some all' Cons.prems(1) by simp
    ultimately show ?thesis by blast
  qed
qed

lemma running_is_processing:
  assumes "consistent j s" and "j \<in> set (threads s)"
  shows "status_of j s = Some (PStr ''processing'')"
proof -
  from assms(2) have "count_list (threads s) j \<noteq> 0" by (simp add: count_list_0_iff)
  with assms(1) show ?thesis
    by (auto simp: consistent_def split: option.splits if_splits)
qed

lemma finish_stores:
  assumes "step (Finish j out) s = Some s'"
  shows "status_of j s'
           = (case out of Inl e \<Rightarrow> Some (PStr ''error'') | Inr r \<Rightarrow> Some (PStr ''done''))"
  using assms by (auto simp: status_of_finish split: if_splits)

lemma abort_stores_nothing:
  assumes "step (Abort j) s = Some s'"
  shows "status_of j s' = status_of j s"
  using assms by (auto simp: status_of_threads split: if_splits)

text \<open>
  C2 (as amended). Let the identifiers that \<open>uuid4\<close> returns be pairwise distinct. Then, on
  every sequence of events of the server, the statuses a job goes through are: unknown,
  then \<open>processing\<close> from its submission on, then at most one of \<open>done\<close> and \<open>error\<close>, for
  good. So the record never disappears, the status never returns to \<open>processing\<close> and
  never changes between \<open>done\<close> and \<open>error\<close>. A job whose thread runs is in \<open>processing\<close>.
  The one change is made when the thread comes to the end of \<open>run_job\<close>: to \<open>done\<close> when the
  pipeline returned, to \<open>error\<close> when it raised an \<open>Exception\<close>. A thread that is ended by
  another exception stores nothing, and the status stays \<open>processing\<close>, as it does when the
  pipeline never returns or the thread could not be started.
\<close>

theorem job_status_lifecycle:
  assumes "distinct (submitted evs)"
  shows "remdups_adj (map (status_of job_id) (states evs start))
           \<in> {[None],
              [None, Some (PStr ''processing'')],
              [None, Some (PStr ''processing''), Some (PStr ''done'')],
              [None, Some (PStr ''processing''), Some (PStr ''error'')]}
       \<and> (\<forall>s \<in> set (states evs start).
             job_id \<in> set (threads s) \<longrightarrow> status_of job_id s = Some (PStr ''processing''))
       \<and> (\<forall>s s' out. step (Finish job_id out) s = Some s' \<longrightarrow>
             status_of job_id s'
               = (case out of Inl e \<Rightarrow> Some (PStr ''error'') | Inr r \<Rightarrow> Some (PStr ''done'')))
       \<and> (\<forall>s s'. step (Abort job_id) s = Some s' \<longrightarrow> status_of job_id s' = status_of job_id s)"
proof -
  have init: "consistent job_id start" "status_of job_id start = None"
    by (simp_all add: consistent_def status_of_def job_field_def start_def)
  from lifecycle_from [OF init(1) assms] init(2)
  have h: "remdups_adj (map (status_of job_id) (states evs start)) \<in> histories_from None"
    and c: "\<forall>s \<in> set (states evs start). consistent job_id s" by simp_all
  from c have r: "\<forall>s \<in> set (states evs start).
             job_id \<in> set (threads s) \<longrightarrow> status_of job_id s = Some (PStr ''processing'')"
    using running_is_processing by blast
  have f: "\<forall>s s' out. step (Finish job_id out) s = Some s' \<longrightarrow>
             status_of job_id s'
               = (case out of Inl e \<Rightarrow> Some (PStr ''error'') | Inr r \<Rightarrow> Some (PStr ''done''))"
    using finish_stores by blast
  have a: "\<forall>s s'. step (Abort job_id) s = Some s' \<longrightarrow> status_of job_id s' = status_of job_id s"
    using abort_stores_nothing by blast
  from h have "remdups_adj (map (status_of job_id) (states evs start))
           \<in> {[None],
              [None, Some (PStr ''processing'')],
              [None, Some (PStr ''processing''), Some (PStr ''done'')],
              [None, Some (PStr ''processing''), Some (PStr ''error'')]}"
    by (simp add: histories_from_def)
  with r f a show ?thesis by (intro conjI)
qed

theorem job_status_lifecycle_witness:
  "distinct (submitted [Submit ''j1'', Submit ''j2'', Poll ''j1'',
                        Finish ''j1'' (Inl ''boom''), Finish ''j2'' (Inr two_files)])
   \<and> remdups_adj (map (status_of ''j1'')
        (states [Submit ''j1'', Submit ''j2'', Poll ''j1'',
                 Finish ''j1'' (Inl ''boom''), Finish ''j2'' (Inr two_files)] start))
       = [None, Some (PStr ''processing''), Some (PStr ''error'')]"
proof -
  let ?evs = "[Submit ''j1'', Submit ''j2'', Poll ''j1'',
               Finish ''j1'' (Inl ''boom''), Finish ''j2'' (Inr two_files)]"
  have d: "distinct (submitted ?evs)" by simp
  have m: "map (status_of ''j1'') (states ?evs start)
             = [None, Some (PStr ''processing''), Some (PStr ''processing''),
                Some (PStr ''processing''), Some (PStr ''error''), Some (PStr ''error'')]"
    by (simp add: start_def status_of_def job_field_def analyze_pr_def run_job_def)
  from job_status_lifecycle [OF d, of "''j1''"]
  have "remdups_adj (map (status_of ''j1'') (states ?evs start))
           \<in> {[None],
              [None, Some (PStr ''processing'')],
              [None, Some (PStr ''processing''), Some (PStr ''done'')],
              [None, Some (PStr ''processing''), Some (PStr ''error'')]}"
    by (rule conjunct1)
  moreover have "remdups_adj [None, Some (PStr ''processing''), Some (PStr ''processing''),
                Some (PStr ''processing''), Some (PStr ''error''), Some (PStr ''error'')]
      = [None, Some (PStr ''processing''), Some (PStr ''error'')]"
    by simp
  ultimately have "remdups_adj (map (status_of ''j1'') (states ?evs start))
       = [None, Some (PStr ''processing''), Some (PStr ''error'')]"
    by (simp only: m)
  with d show ?thesis by (intro conjI)
qed

text \<open>
  C2 as stated has the status change exactly once. A thread that is ended by an exception
  which is not an \<open>Exception\<close> leaves the record in \<open>processing\<close> with no thread to change
  it; so does a request whose thread could not be started.
\<close>

theorem job_stays_processing:
  "map (status_of ''j'') (states [Submit ''j'', Abort ''j'', Poll ''j''] start)
     = [None, Some (PStr ''processing''), Some (PStr ''processing''), Some (PStr ''processing'')]
   \<and> threads (last (states [Submit ''j'', Abort ''j'', Poll ''j''] start)) = []
   \<and> map (status_of ''k'') (states [Submit_unstarted ''k'', Poll ''k''] start)
     = [None, Some (PStr ''processing''), Some (PStr ''processing'')]
   \<and> threads (last (states [Submit_unstarted ''k'', Poll ''k''] start)) = []"
  by (simp add: start_def status_of_def job_field_def analyze_pr_def)

section \<open>What the approval endpoint returns\<close>

lemma rmatch_needs_literal:
  "c \<notin> set s \<Longrightarrow> Lit [c] \<in> set p \<Longrightarrow> rmatch p s = None"
proof (induction p s rule: rmatch.induct)
  case (1 s)
  then show ?case by simp
next
  case (2 l r s)
  show ?case
  proof (cases "prefix l s")
    case False
    then show ?thesis by simp
  next
    case True
    have "l \<noteq> [c]"
    proof
      assume "l = [c]"
      with True have "c \<in> set s" by (cases s) auto
      with "2.prems"(1) show False by simp
    qed
    with "2.prems"(2) have "Lit [c] \<in> set r" by simp
    moreover have "c \<notin> set (drop (length l) s)"
      using "2.prems"(1) by (meson in_set_dropD)
    ultimately have "rmatch r (drop (length l) s) = None"
      using "2.IH" True by blast
    with True show ?thesis by simp
  qed
next
  case (3 P r s)
  show ?case
  proof (cases s)
    case Nil
    then show ?thesis by simp
  next
    case (Cons x xs)
    show ?thesis
    proof (cases "P x")
      case False
      with Cons show ?thesis by simp
    next
      case True
      from "3.prems" Cons have "c \<notin> set xs" "Lit [c] \<in> set r" by simp_all
      with "3.IH" [OF Cons True] have "rmatch r xs = None" by blast
      with Cons True show ?thesis by simp
    qed
  qed
next
  case (4 P r s)
  from "4.prems" have r: "Lit [c] \<in> set r" by simp
  with "4.IH"(1) "4.prems"(1) have none: "rmatch r s = None" by blast
  show ?case
  proof (cases s)
    case Nil
    with none show ?thesis by simp
  next
    case (Cons x xs)
    show ?thesis
    proof (cases "P x")
      case False
      with Cons none show ?thesis by simp
    next
      case True
      from "4.prems" Cons have "c \<notin> set xs" by simp
      with "4.IH"(2) [OF none Cons True] "4.prems"(2) have "rmatch (Lazy P # r) xs = None"
        by blast
      with Cons True none show ?thesis by simp
    qed
  qed
next
  case (5 P r s)
  from "5.prems" have r: "Lit [c] \<in> set r" by simp
  have inner: "(case s of [] \<Rightarrow> None
            | x # xs \<Rightarrow>
                if P x
                then (case rmatch (Greedy P # r) xs of
                        Some (g # gs, rest) \<Rightarrow> Some ((x # g) # gs, rest)
                      | _ \<Rightarrow> None)
                else None) = None"
  proof (cases s)
    case Nil
    then show ?thesis by simp
  next
    case (Cons x xs)
    show ?thesis
    proof (cases "P x")
      case False
      with Cons show ?thesis by simp
    next
      case True
      from "5.prems" Cons have "c \<notin> set xs" by simp
      with "5.IH"(1) [OF Cons True] "5.prems"(2) have "rmatch (Greedy P # r) xs = None"
        by blast
      with Cons True show ?thesis by simp
    qed
  qed
  from "5.IH"(2) [OF inner] "5.prems"(1) r have "rmatch r s = None" by blast
  with inner show ?case by simp
next
  case (6 l r s)
  from "6.prems" have r: "Lit [c] \<in> set r" by simp
  show ?case
  proof (cases "prefix l s \<or> s = []")
    case False
    then show ?thesis by simp
  next
    case True
    with "6.IH" "6.prems"(1) r have "rmatch r s = None" by blast
    with True show ?thesis by simp
  qed
qed

lemma search_needs_literal:
  "c \<notin> set s \<Longrightarrow> Lit [c] \<in> set p \<Longrightarrow> search p s = None"
proof (induction s)
  case Nil
  then show ?case by (subst search.simps) (simp add: rmatch_needs_literal)
next
  case (Cons x xs)
  then have "rmatch p (x # xs) = None" "search p xs = None"
    by (simp_all add: rmatch_needs_literal)
  then show ?case by (subst search.simps) simp
qed

lemma approve_pr_no_backslash:
  assumes "CHR 0x5C \<notin> set u"
  shows "approve_pr a getenv u w = (Inr [(''error'', Str ''Invalid GitHub PR URL'')], w)"
proof -
  have "Lit [CHR 0x5C] \<in> set approve_pattern" by (simp add: approve_pattern_def)
  with assms have "search approve_pattern u = None" by (rule search_needs_literal)
  then show ?thesis by (simp add: approve_pr_def)
qed

text \<open>
  C5. The pattern asks for a backslash and letters d where the number of the pull request
  should be, so the URL of a pull request is not matched: the endpoint answers
  \<open>Invalid GitHub PR URL\<close> and sends nothing to the forge.
\<close>

theorem approve_pr_rejects_pull_request_url:
  "approve_pr a getenv ''https://github.com/octocat/hello/pull/42'' w
     = (Inr [(''error'', Str ''Invalid GitHub PR URL'')], w)"
  by (rule approve_pr_no_backslash) simp

lemma search_backslash_url:
  "search approve_pattern backslash_url
     = Some [''github'', ''.'', ''com/'', ''octocat'', ''/'', ''hello'', ''/pull/'',
             [CHR 0x5C], ''d'', []]"
  by (simp add: search.simps approve_pattern_def backslash_url_def dot_def letter_d_def)

lemma approve_request_backslash_url:
  "approve_request token
     (approve_groups [''github'', ''.'', ''com/'', ''octocat'', ''/'', ''hello'', ''/pull/'',
                      [CHR 0x5C], ''d'', []])
   = \<lparr>url = ''https://api.github.com/repos/octocat/hello/pulls/'' @ [CHR 0x5C] @ ''d/reviews'',
      headers = [(''Authorization'', ''token '' @ format_opt token),
                 (''Accept'', ''application/vnd.github+json'')],
      json_payload = [(''event'', Str ''APPROVE'')]\<rparr>"
  by (simp add: approve_request_def approve_groups_def)

lemma approve_pr_answered:
  assumes "search approve_pattern u = Some gs"
    and "requests_post a (approve_request (getenv ''GITHUB_TOKEN'') (approve_groups gs)) (outside w)
           = (Inr resp, v)"
  shows "approve_pr a getenv u w
           = (if status_code resp = 200 \<or> status_code resp = 201
              then Inr [(''status'', Str ''approved'')]
              else (case json_body resp of Inl e \<Rightarrow> Inl e | Inr body \<Rightarrow> Inr [(''error'', body)]),
              w\<lparr>outside := v,
                posts := posts w
                  @ [approve_request (getenv ''GITHUB_TOKEN'') (approve_groups gs)]\<rparr>)"
  using assms by (simp add: approve_pr_def Let_def split: sum.splits)

text \<open>
  C8 (as amended). When the POST of the approval endpoint is answered, the endpoint returns
  \<open>{"status": "approved"}\<close> exactly when the status of the answer is 200 or 201. For any
  other status it returns \<open>{"error": body}\<close>, \<open>body\<close> being the answer's body decoded by
  \<open>response.json()\<close>, when the body decodes; when it does not, the exception of the decoder
  leaves the endpoint.
\<close>

theorem approve_pr_status_mapping:
  assumes "search approve_pattern u = Some gs"
    and "requests_post a (approve_request (getenv ''GITHUB_TOKEN'') (approve_groups gs)) (outside w)
           = (Inr resp, v)"
  shows "(fst (approve_pr a getenv u w) = Inr [(''status'', Str ''approved'')]
            \<longleftrightarrow> status_code resp = 200 \<or> status_code resp = 201)
       \<and> (status_code resp \<noteq> 200 \<and> status_code resp \<noteq> 201 \<longrightarrow>
            fst (approve_pr a getenv u w)
              = (case json_body resp of Inl e \<Rightarrow> Inl e | Inr body \<Rightarrow> Inr [(''error'', body)]))"
  by (auto simp: approve_pr_answered [where getenv = getenv, OF assms] split: sum.splits)

theorem approve_pr_status_mapping_witness:
  "search approve_pattern backslash_url
     = Some [''github'', ''.'', ''com/'', ''octocat'', ''/'', ''hello'', ''/pull/'',
             [CHR 0x5C], ''d'', []]
   \<and> fst (requests_post not_found
        (approve_request None
           (approve_groups [''github'', ''.'', ''com/'', ''octocat'', ''/'', ''hello'', ''/pull/'',
                            [CHR 0x5C], ''d'', []])) ())
     = Inr \<lparr>status_code = 404, json_body = Inr (Obj [(''message'', Str ''Not Found'')])\<rparr>
   \<and> fst (approve_pr not_found Map.empty backslash_url quiet)
     = Inr [(''error'', Obj [(''message'', Str ''Not Found'')])]
   \<and> fst (approve_pr answering Map.empty backslash_url quiet) = Inr [(''status'', Str ''approved'')]"
proof -
  let ?gs = "[''github'', ''.'', ''com/'', ''octocat'', ''/'', ''hello'', ''/pull/'',
              [CHR 0x5C], ''d'', []]"
  have p404: "requests_post not_found (approve_request (Map.empty ''GITHUB_TOKEN'') (approve_groups ?gs))
          (outside quiet)
        = (Inr \<lparr>status_code = 404, json_body = Inr (Obj [(''message'', Str ''Not Found'')])\<rparr>, ())"
    by (simp add: not_found_def)
  have p200: "requests_post answering (approve_request (Map.empty ''GITHUB_TOKEN'') (approve_groups ?gs))
          (outside quiet)
        = (Inr \<lparr>status_code = 200, json_body = Inr Null\<rparr>, ())"
    by (simp add: answering_def)
  from approve_pr_status_mapping [where getenv = Map.empty, OF search_backslash_url p404]
  have r404: "fst (approve_pr not_found Map.empty backslash_url quiet)
     = Inr [(''error'', Obj [(''message'', Str ''Not Found'')])]" by simp
  from approve_pr_status_mapping [where getenv = Map.empty, OF search_backslash_url p200]
  have r200: "fst (approve_pr answering Map.empty backslash_url quiet)
     = Inr [(''status'', Str ''approved'')]" by simp
  have q: "fst (requests_post not_found (approve_request None (approve_groups ?gs)) ())
     = Inr \<lparr>status_code = 404, json_body = Inr (Obj [(''message'', Str ''Not Found'')])\<rparr>"
    by (simp add: not_found_def)
  from search_backslash_url q r404 r200 show ?thesis by (intro conjI)
qed

text \<open>
  C8 as stated fails for an answer whose body is not JSON: the endpoint raises the
  exception of \<open>response.json()\<close> and returns no error result.
\<close>

theorem approve_pr_body_not_json:
  "fst (approve_pr bad_gateway Map.empty backslash_url quiet)
     = Inl ''Expecting value: line 1 column 1 (char 0)''"
proof -
  have "requests_post bad_gateway
          (approve_request (Map.empty ''GITHUB_TOKEN'')
             (approve_groups [''github'', ''.'', ''com/'', ''octocat'', ''/'', ''hello'', ''/pull/'',
                              [CHR 0x5C], ''d'', []])) (outside quiet)
        = (Inr \<lparr>status_code = 502,
                 json_body = Inl ''Expecting value: line 1 column 1 (char 0)''\<rparr>, ())"
    by (simp add: bad_gateway_def)
  from approve_pr_answered [where getenv = Map.empty, OF search_backslash_url this] show ?thesis by simp
qed

lemma approve_pr_posts:
  assumes "search approve_pattern u = Some gs"
  shows "posts (snd (approve_pr a getenv u w))
           = posts w @ [approve_request (getenv ''GITHUB_TOKEN'') (approve_groups gs)]"
  using assms by (simp add: approve_pr_def Let_def split: sum.splits)

section \<open>Absent credentials\<close>

lemma chat_without_key:
  assumes "openai_api_key w = None"
    and "\<forall>req v. fst (completions_create a None req v) = Inl err"
  shows "fst (chat a prompt budget w) = Inl err"
    and "chats (snd (chat a prompt budget w)) = chats w @ [(gpt4 prompt budget, Inl err)]"
  using assms by (simp_all add: chat_def Let_def gpt4_def)

lemma and_then_raises:
  "fst (m s) = Inl e \<Longrightarrow> and_then m f s = (Inl e, snd (m s))"
  by (cases "m s") (simp add: and_then_def)

lemma process_file_without_key:
  assumes "openai_api_key w = None"
    and "\<forall>req v. fst (completions_create a None req v) = Inl err"
  shows "fst (process_file a f w) = Inl err"
    and "length (chats (snd (process_file a f w))) = Suc (length (chats w))"
  unfolding process_file_def
  using chat_without_key [OF assms, of "explain_prompt (diff f)" 500]
  by (simp_all add: and_then_raises)

lemma process_files_without_key:
  assumes "openai_api_key w = None"
    and "\<forall>req v. fst (completions_create a None req v) = Inl err"
  shows "files state = [] \<Longrightarrow> process_files a state w = (Inr (state\<lparr>files := []\<rparr>), w)"
    and "files state \<noteq> [] \<Longrightarrow> fst (process_files a state w) = Inl err"
    and "files state \<noteq> [] \<Longrightarrow>
           length (chats (snd (process_files a state w))) = Suc (length (chats w))"
proof -
  show "process_files a state w = (Inr (state\<lparr>files := []\<rparr>), w)" if "files state = []"
    using that by (simp add: process_files_def and_then_def returns_def)
  assume "files state \<noteq> []"
  then obtain f fs where fs: "files state = f # fs" by (cases "files state") auto
  have loop: "process_loop a [] (files state) w = (Inl err, snd (process_file a f w))"
    unfolding fs process_loop.simps
    by (rule and_then_raises) (rule process_file_without_key(1) [OF assms])
  then have "process_files a state w = (Inl err, snd (process_file a f w))"
    by (simp add: process_files_def and_then_def)
  then show "fst (process_files a state w) = Inl err"
    and "length (chats (snd (process_files a state w))) = Suc (length (chats w))"
    using process_file_without_key(2) [OF assms, of f] by simp_all
qed

lemma aggregate_summaries_without_key:
  assumes "openai_api_key w = None"
    and "\<forall>req v. fst (completions_create a None req v) = Inl err"
  shows "fst (aggregate_summaries a state w) = Inl err"
    and "length (chats (snd (aggregate_summaries a state w))) = Suc (length (chats w))"
  unfolding aggregate_summaries_def Let_def
  using chat_without_key [OF assms,
      of "join [newline, newline] (map explanation_block (files state))" 400]
  by (simp_all add: and_then_raises)

lemma invoke_without_key:
  assumes "openai_api_key w = None"
    and "\<forall>req v. fst (completions_create a None req v) = Inl err"
    and "fst (requests_get a (u @ ''.diff'') (outside w)) = Inr text"
  shows "fst (invoke a u w) = Inl err"
    and "length (chats (snd (invoke a u w))) = Suc (length (chats w))"
proof -
  let ?s0 = "\<lparr>pr_url = u, pr_diff = [], files = [], dev_summary = [], pr_business_summary = []\<rparr>"
  let ?w1 = "w\<lparr>outside := snd (requests_get a (u @ ''.diff'') (outside w)),
                gets := gets w @ [u @ ''.diff'']\<rparr>"
  let ?s2 = "split_by_file (?s0\<lparr>pr_diff := text\<rparr>)"
  have fetch: "fetch_pr_diff a ?s0 w = (Inr (?s0\<lparr>pr_diff := text\<rparr>), ?w1)"
    using assms(3) by (simp add: fetch_pr_diff_def Let_def)
  have key1: "openai_api_key ?w1 = None" and chats1: "chats ?w1 = chats w"
    using assms(1) by simp_all
  have inv: "invoke a u w
      = and_then (process_files a ?s2) (\<lambda>s3. aggregate_summaries a s3) ?w1"
    using fetch by (simp add: invoke_def and_then_def returns_def)
  have "fst (invoke a u w) = Inl err
        \<and> length (chats (snd (invoke a u w))) = Suc (length (chats w))"
  proof (cases "files ?s2 = []")
    case True
    from process_files_without_key(1) [OF key1 assms(2) True]
    have "invoke a u w = aggregate_summaries a (?s2\<lparr>files := []\<rparr>) ?w1"
      unfolding inv by (simp add: and_then_def)
    then show ?thesis
      using aggregate_summaries_without_key [OF key1 assms(2), of "?s2\<lparr>files := []\<rparr>"] chats1
      by simp
  next
    case False
    from process_files_without_key(2) [OF key1 assms(2) False]
    have "invoke a u w = (Inl err, snd (process_files a ?s2 ?w1))"
      unfolding inv by (rule and_then_raises)
    then show ?thesis
      using process_files_without_key(3) [OF key1 assms(2) False] chats1 by simp
  qed
  then show "fst (invoke a u w) = Inl err"
    and "length (chats (snd (invoke a u w))) = Suc (length (chats w))" by simp_all
qed

lemma approve_pr_result:
  assumes "search approve_pattern u = Some gs"
  shows "fst (approve_pr a getenv u w)
           = (case fst (requests_post a
                    (approve_request (getenv ''GITHUB_TOKEN'') (approve_groups gs)) (outside w)) of
                Inl e \<Rightarrow> Inl e
              | Inr resp \<Rightarrow>
                  if status_code resp = 200 \<or> status_code resp = 201
                  then Inr [(''status'', Str ''approved'')]
                  else (case json_body resp of
                          Inl e \<Rightarrow> Inl e
                        | Inr body \<Rightarrow> Inr [(''error'', body)]))"
  using assms by (simp add: approve_pr_def Let_def split: sum.splits)

lemma approve_request_headers:
  "headers (approve_request None g)
     = [(''Authorization'', ''token None''), (''Accept'', ''application/vnd.github+json'')]"
  by (cases g) (simp add: approve_request_def format_opt_def split: prod.splits)
text \<open>
  C9 (as amended). Nothing is validated when the module is loaded: the completion
  credential is read with \<open>os.getenv\<close> and kept, \<open>None\<close> when the variable is absent.
  If it is absent, and the completion client refuses an absent credential, the first
  completion call fails at runtime with the client's error: a job whose diff was fetched
  fails at the first completion call it makes, and ends in status \<open>error\<close>.
  If the token of the forge is absent, an approval request whose URL the pattern matches
  does not fail at first use: the POST is sent with the header \<open>Authorization: token None\<close>,
  and the endpoint returns whatever the answer of the forge maps to.
\<close>

theorem absent_credentials:
  "openai_api_key (load_module getenv w) = getenv ''OPENAI_API_KEY''
   \<and> (getenv ''OPENAI_API_KEY'' = None
        \<and> (\<forall>req v. fst (completions_create a None req v) = Inl err) \<longrightarrow>
          fst (chat a prompt budget (load_module getenv w)) = Inl err
        \<and> (\<forall>text. fst (requests_get a (u' @ ''.diff'') (outside w)) = Inr text \<longrightarrow>
              fst (invoke a u' (load_module getenv w)) = Inl err
            \<and> length (chats (snd (invoke a u' (load_module getenv w)))) = Suc (length (chats w))
            \<and> job_field (run_job i (fst (invoke a u' (load_module getenv w))) store) i ''status''
                = Some (PStr ''error'')
            \<and> job_field (run_job i (fst (invoke a u' (load_module getenv w))) store) i ''error''
                = Some (PStr err)))
   \<and> (getenv ''GITHUB_TOKEN'' = None \<and> search approve_pattern u = Some gs \<longrightarrow>
          posts (snd (approve_pr a getenv u w))
            = posts w @ [approve_request None (approve_groups gs)]
        \<and> headers (approve_request None (approve_groups gs))
            = [(''Authorization'', ''token None''), (''Accept'', ''application/vnd.github+json'')]
        \<and> fst (approve_pr a getenv u w)
            = (case fst (requests_post a (approve_request None (approve_groups gs)) (outside w)) of
                 Inl e \<Rightarrow> Inl e
               | Inr resp \<Rightarrow>
                   if status_code resp = 200 \<or> status_code resp = 201
                   then Inr [(''status'', Str ''approved'')]
                   else (case json_body resp of
                           Inl e \<Rightarrow> Inl e
                         | Inr body \<Rightarrow> Inr [(''error'', body)])))"
proof (intro conjI impI allI)
  show "openai_api_key (load_module getenv w) = getenv ''OPENAI_API_KEY''"
    by (simp add: load_module_def)
next
  assume h: "getenv ''OPENAI_API_KEY'' = None
             \<and> (\<forall>req v. fst (completions_create a None req v) = Inl err)"
  then have key: "openai_api_key (load_module getenv w) = None"
    and client: "\<forall>req v. fst (completions_create a None req v) = Inl err"
    by (simp_all add: load_module_def)
  show "fst (chat a prompt budget (load_module getenv w)) = Inl err"
    by (rule chat_without_key(1) [OF key client])
  fix t
  assume "fst (requests_get a (u' @ ''.diff'') (outside w)) = Inr t"
  then have fetch: "fst (requests_get a (u' @ ''.diff'') (outside (load_module getenv w))) = Inr t"
    by (simp add: load_module_def)
  show inv: "fst (invoke a u' (load_module getenv w)) = Inl err"
    by (rule invoke_without_key(1) [OF key client fetch])
  show "length (chats (snd (invoke a u' (load_module getenv w)))) = Suc (length (chats w))"
    using invoke_without_key(2) [OF key client fetch] by (simp add: load_module_def)
  show "job_field (run_job i (fst (invoke a u' (load_module getenv w))) store) i ''status''
          = Some (PStr ''error'')"
    unfolding inv by (simp add: job_field_def run_job_def)
  show "job_field (run_job i (fst (invoke a u' (load_module getenv w))) store) i ''error''
          = Some (PStr err)"
    unfolding inv by (simp add: job_field_def run_job_def)
next
  assume h: "getenv ''GITHUB_TOKEN'' = None \<and> search approve_pattern u = Some gs"
  then have tok: "getenv ''GITHUB_TOKEN'' = None" and m: "search approve_pattern u = Some gs"
    by simp_all
  show "posts (snd (approve_pr a getenv u w))
          = posts w @ [approve_request None (approve_groups gs)]"
    using approve_pr_posts [OF m, of a getenv w] tok by simp
  show "headers (approve_request None (approve_groups gs))
          = [(''Authorization'', ''token None''), (''Accept'', ''application/vnd.github+json'')]"
    by (rule approve_request_headers)
  show "fst (approve_pr a getenv u w)
            = (case fst (requests_post a (approve_request None (approve_groups gs)) (outside w)) of
                 Inl e \<Rightarrow> Inl e
               | Inr resp \<Rightarrow>
                   if status_code resp = 200 \<or> status_code resp = 201
                   then Inr [(''status'', Str ''approved'')]
                   else (case json_body resp of
                           Inl e \<Rightarrow> Inl e
                         | Inr body \<Rightarrow> Inr [(''error'', body)]))"
    using approve_pr_result [OF m, of a getenv w] tok by simp
qed

theorem absent_credentials_witness:
  "(Map.empty :: string \<rightharpoonup> string) ''OPENAI_API_KEY'' = None
   \<and> fst (completions_create keyed None (gpt4 ''p'' 1) ()) = Inl ''The api_key client option must be set''
   \<and> fst (requests_get keyed (''u'' @ ''.diff'') (outside quiet)) = Inr two_file_diff
   \<and> fst (invoke keyed ''u'' (load_module Map.empty quiet))
       = Inl ''The api_key client option must be set''
   \<and> length (chats (snd (invoke keyed ''u'' (load_module Map.empty quiet)))) = 1
   \<and> (Map.empty :: string \<rightharpoonup> string) ''GITHUB_TOKEN'' = None
   \<and> search approve_pattern backslash_url
       = Some [''github'', ''.'', ''com/'', ''octocat'', ''/'', ''hello'', ''/pull/'',
               [CHR 0x5C], ''d'', []]
   \<and> map headers (posts (snd (approve_pr keyed Map.empty backslash_url quiet)))
       = [[(''Authorization'', ''token None''), (''Accept'', ''application/vnd.github+json'')]]
   \<and> fst (approve_pr keyed Map.empty backslash_url quiet) = Inr [(''status'', Str ''approved'')]"
proof -
  let ?gs = "[''github'', ''.'', ''com/'', ''octocat'', ''/'', ''hello'', ''/pull/'',
              [CHR 0x5C], ''d'', []]"
  let ?msg = "''The api_key client option must be set''"
  note inst = absent_credentials [of Map.empty quiet keyed ?msg "''p''" 1 "''u''" "''j''"
      Map.empty backslash_url ?gs]
  have k: "(Map.empty :: string \<rightharpoonup> string) ''OPENAI_API_KEY'' = None" by simp
  have t: "(Map.empty :: string \<rightharpoonup> string) ''GITHUB_TOKEN'' = None" by simp
  have client: "\<forall>req v. fst (completions_create keyed None req v) = Inl ?msg"
    by (simp add: keyed_def)
  have c1: "fst (completions_create keyed None (gpt4 ''p'' 1) ()) = Inl ?msg"
    using client by blast
  have fetch: "fst (requests_get keyed (''u'' @ ''.diff'') (outside quiet)) = Inr two_file_diff"
    by (simp add: keyed_def)
  from inst k client fetch have
    i1: "fst (invoke keyed ''u'' (load_module Map.empty quiet)) = Inl ?msg"
    and i2: "length (chats (snd (invoke keyed ''u'' (load_module Map.empty quiet))))
               = Suc (length (chats quiet))"
    by blast+
  from i2 have i2': "length (chats (snd (invoke keyed ''u'' (load_module Map.empty quiet)))) = 1"
    by (simp add: quiet_def)
  from inst t search_backslash_url have
    p: "posts (snd (approve_pr keyed Map.empty backslash_url quiet))
          = posts quiet @ [approve_request None (approve_groups ?gs)]"
    and h: "headers (approve_request None (approve_groups ?gs))
          = [(''Authorization'', ''token None''), (''Accept'', ''application/vnd.github+json'')]"
    and r: "fst (approve_pr keyed Map.empty backslash_url quiet)
            = (case fst (requests_post keyed (approve_request None (approve_groups ?gs))
                           (outside quiet)) of
                 Inl e \<Rightarrow> Inl e
               | Inr resp \<Rightarrow>
                   if status_code resp = 200 \<or> status_code resp = 201
                   then Inr [(''status'', Str ''approved'')]
                   else (case json_body resp of
                           Inl e \<Rightarrow> Inl e
                         | Inr body \<Rightarrow> Inr [(''error'', body)]))"
    by blast+
  from p h have ph: "map headers (posts (snd (approve_pr keyed Map.empty backslash_url quiet)))
       = [[(''Authorization'', ''token None''), (''Accept'', ''application/vnd.github+json'')]]"
    by (simp add: quiet_def)
  from r have r': "fst (approve_pr keyed Map.empty backslash_url quiet)
                     = Inr [(''status'', Str ''approved'')]"
    by (simp add: keyed_def)
  from k c1 fetch i1 i2' t search_backslash_url ph r' show ?thesis by (intro conjI)
qed

text \<open>
  C9 as stated has the approval request fail at first use rather than be sent with a
  placeholder credential. With no token in the environment the request is sent with
  \<open>token None\<close>, and a forge that answers 200 makes the endpoint report the approval.
\<close>

theorem approve_pr_sends_token_None:
  "approve_pr answering Map.empty backslash_url quiet
     = (Inr [(''status'', Str ''approved'')],
        \<lparr>outside = (), openai_api_key = Some ''sk-example'', gets = [], chats = [],
         posts = [\<lparr>url = ''https://api.github.com/repos/octocat/hello/pulls/''
                          @ [CHR 0x5C] @ ''d/reviews'',
                    headers = [(''Authorization'', ''token None''),
                               (''Accept'', ''application/vnd.github+json'')],
                    json_payload = [(''event'', Str ''APPROVE'')]\<rparr>]\<rparr>)"
proof -
  have "requests_post answering
          (approve_request (Map.empty ''GITHUB_TOKEN'')
             (approve_groups [''github'', ''.'', ''com/'', ''octocat'', ''/'', ''hello'', ''/pull/'',
                              [CHR 0x5C], ''d'', []])) (outside quiet)
        = (Inr \<lparr>status_code = 200, json_body = Inr Null\<rparr>, ())"
    by (simp add: answering_def)
  from approve_pr_answered [where getenv = Map.empty, OF search_backslash_url this] show ?thesis
    by (simp add: approve_request_backslash_url format_opt_def quiet_def)
qed

end
